theory Spec2Isabelle
  imports Main "HOL-Library.Word"
begin

unbundle bit_operations_syntax

section \<open>Outcomes of a computation\<close>

text \<open>
  The C code works on pointers. A computation of the model either returns a value
  (\<open>Some (Ret x)\<close>), dereferences a null or dangling pointer (\<open>Some Fault\<close>: undefined
  behaviour in C), or does not return (\<open>None\<close>: a pointer loop that runs forever on a
  cyclic structure).
\<close>

datatype 'a res = Ret 'a | Fault

type_synonym 'a comp = "'a res option"

definition ret :: "'a \<Rightarrow> 'a comp" where
  "ret x = Some (Ret x)"

definition fault :: "'a comp" where
  "fault = Some Fault"

definition obind :: "'a comp \<Rightarrow> ('a \<Rightarrow> 'b comp) \<Rightarrow> 'b comp" where
  "obind m f = (case m of None \<Rightarrow> None | Some Fault \<Rightarrow> Some Fault | Some (Ret x) \<Rightarrow> f x)"

section \<open>Red-black nodes and their store\<close>

type_synonym addr = nat

text \<open>\<open>RB_BLACK\<close> is 0 and \<open>RB_RED\<close> is 1 in the source; no other value is ever stored in
  the colour byte (\<open>calloc\<close> gives 0).\<close>

datatype color = RB_BLACK | RB_RED

record rb_node =
  parent :: "addr option"
  left :: "addr option"
  right :: "addr option"
  dnode :: "addr option"
  color :: color

type_synonym rb_heap = "addr \<Rightarrow> rb_node option"

text \<open>Reading and writing a member through a pointer; \<open>None\<close> is the null pointer.\<close>

definition rd :: "rb_heap \<Rightarrow> addr option \<Rightarrow> (rb_node \<Rightarrow> 'a) \<Rightarrow> 'a comp" where
  "rd h p f = (case p of None \<Rightarrow> fault
               | Some a \<Rightarrow> (case h a of None \<Rightarrow> fault | Some n \<Rightarrow> ret (f n)))"

definition wr :: "rb_heap \<Rightarrow> addr option \<Rightarrow> (rb_node \<Rightarrow> rb_node) \<Rightarrow> rb_heap comp" where
  "wr h p u = (case p of None \<Rightarrow> fault
               | Some a \<Rightarrow> (case h a of None \<Rightarrow> fault | Some n \<Rightarrow> ret (h(a \<mapsto> u n))))"

definition RBN_LEFT :: "rb_heap \<Rightarrow> addr option \<Rightarrow> addr option comp" where
  "RBN_LEFT h p = rd h p left"

definition RBN_RIGHT :: "rb_heap \<Rightarrow> addr option \<Rightarrow> addr option comp" where
  "RBN_RIGHT h p = rd h p right"

definition RBN_PARENT :: "rb_heap \<Rightarrow> addr option \<Rightarrow> addr option comp" where
  "RBN_PARENT h p = rd h p parent"

definition RBN_DNODE :: "rb_heap \<Rightarrow> addr option \<Rightarrow> addr option comp" where
  "RBN_DNODE h p = rd h p dnode"

definition RBN_COLOR :: "rb_heap \<Rightarrow> addr option \<Rightarrow> color comp" where
  "RBN_COLOR h p = rd h p color"

definition set_LEFT :: "rb_heap \<Rightarrow> addr option \<Rightarrow> addr option \<Rightarrow> rb_heap comp" where
  "set_LEFT h p v = wr h p (\<lambda>n. n\<lparr>left := v\<rparr>)"

definition set_RIGHT :: "rb_heap \<Rightarrow> addr option \<Rightarrow> addr option \<Rightarrow> rb_heap comp" where
  "set_RIGHT h p v = wr h p (\<lambda>n. n\<lparr>right := v\<rparr>)"

definition set_PARENT :: "rb_heap \<Rightarrow> addr option \<Rightarrow> addr option \<Rightarrow> rb_heap comp" where
  "set_PARENT h p v = wr h p (\<lambda>n. n\<lparr>parent := v\<rparr>)"

definition set_COLOR :: "rb_heap \<Rightarrow> addr option \<Rightarrow> color \<Rightarrow> rb_heap comp" where
  "set_COLOR h p v = wr h p (\<lambda>n. n\<lparr>color := v\<rparr>)"

text \<open>\<open>pointer != NULL && RBN_COLOR(pointer) == RB_RED\<close>, evaluated left to right.\<close>

definition is_red :: "rb_heap \<Rightarrow> addr option \<Rightarrow> bool comp" where
  "is_red h p = (if p = None then ret False
                 else obind (RBN_COLOR h p) (\<lambda>c. ret (c = RB_RED)))"

text \<open>\<open>pointer == NULL || RBN_COLOR(pointer) == RB_BLACK\<close>, evaluated left to right.\<close>

definition null_or_black :: "rb_heap \<Rightarrow> addr option \<Rightarrow> bool comp" where
  "null_or_black h p = (if p = None then ret True
                        else obind (RBN_COLOR h p) (\<lambda>c. ret (c = RB_BLACK)))"

text \<open>\<open>rb_free_node\<close>: \<open>free\<close> of the null pointer does nothing; freeing an address that
  is not allocated is a fault.\<close>

definition rb_free_node :: "rb_heap \<Rightarrow> addr option \<Rightarrow> rb_heap comp" where
  "rb_free_node h rbn = (case rbn of None \<Rightarrow> ret h
                         | Some a \<Rightarrow> (case h a of None \<Rightarrow> fault | Some n \<Rightarrow> ret (h(a := None))))"

section \<open>The balanced tree engine\<close>

definition rb_set :: "rb_heap \<Rightarrow> addr option \<Rightarrow> addr option \<Rightarrow> rb_heap comp" where
  "rb_set h rbn par = wr h rbn (\<lambda>n. n\<lparr>parent := par, left := None, right := None, color := RB_RED\<rparr>)"

definition rb_set_blackred :: "rb_heap \<Rightarrow> addr option \<Rightarrow> addr option \<Rightarrow> rb_heap comp" where
  "rb_set_blackred h black red =
     obind (set_COLOR h black RB_BLACK) (\<lambda>h. set_COLOR h red RB_RED)"

text \<open>The root pointer \<open>*rbt\<close> is passed in and returned with the store.\<close>

definition rb_rotate_left :: "rb_heap \<Rightarrow> addr option \<Rightarrow> addr option \<Rightarrow> (rb_heap \<times> addr option) comp" where
  "rb_rotate_left h rbt rbn =
     obind (RBN_RIGHT h rbn) (\<lambda>tmp.
     obind (RBN_LEFT h tmp) (\<lambda>tl.
     obind (set_RIGHT h rbn tl) (\<lambda>h.
     obind (if tl \<noteq> None then set_PARENT h tl rbn else ret h) (\<lambda>h.
     obind (RBN_PARENT h rbn) (\<lambda>par.
     obind (set_PARENT h tmp par) (\<lambda>h.
     obind (if par \<noteq> None then
              obind (RBN_LEFT h par) (\<lambda>pl.
              obind (if rbn = pl then set_LEFT h par tmp else set_RIGHT h par tmp) (\<lambda>h.
              ret (h, rbt)))
            else ret (h, tmp)) (\<lambda>(h, rbt).
     obind (set_LEFT h tmp rbn) (\<lambda>h.
     obind (set_PARENT h rbn tmp) (\<lambda>h.
     ret (h, rbt))))))))))"

definition rb_rotate_right :: "rb_heap \<Rightarrow> addr option \<Rightarrow> addr option \<Rightarrow> (rb_heap \<times> addr option) comp" where
  "rb_rotate_right h rbt rbn =
     obind (RBN_LEFT h rbn) (\<lambda>tmp.
     obind (RBN_RIGHT h tmp) (\<lambda>tr.
     obind (set_LEFT h rbn tr) (\<lambda>h.
     obind (if tr \<noteq> None then set_PARENT h tr rbn else ret h) (\<lambda>h.
     obind (RBN_PARENT h rbn) (\<lambda>par.
     obind (set_PARENT h tmp par) (\<lambda>h.
     obind (if par \<noteq> None then
              obind (RBN_LEFT h par) (\<lambda>pl.
              obind (if rbn = pl then set_LEFT h par tmp else set_RIGHT h par tmp) (\<lambda>h.
              ret (h, rbt)))
            else ret (h, tmp)) (\<lambda>(h, rbt).
     obind (set_RIGHT h tmp rbn) (\<lambda>h.
     obind (set_PARENT h rbn tmp) (\<lambda>h.
     ret (h, rbt))))))))))"

lemma obind_mono [partial_function_mono]:
  assumes "mono_option B" and "\<And>y. mono_option (C y)"
  shows "mono_option (\<lambda>f. obind (B f) (\<lambda>y. C y f))"
proof -
  have eq: "\<And>m g. obind m g = Option.bind m (\<lambda>r. case r of Ret x \<Rightarrow> g x | Fault \<Rightarrow> Some Fault)"
    by (auto simp: obind_def split: option.splits res.splits)
  show ?thesis
    unfolding eq
  proof (rule bind_mono [OF assms(1)])
    fix y :: "'c res"
    show "mono_option (\<lambda>f. case y of Ret x \<Rightarrow> C x f | Fault \<Rightarrow> Some Fault)"
      by (cases y) (simp_all add: assms(2) option.const_mono)
  qed
qed

text \<open>One pass through the body of the loop of \<open>rb_insert_color\<close>, entered with
  \<open>parent\<close> red; it returns the store, the root and the next \<open>rbn\<close>.\<close>

definition rb_insert_color_body ::
  "rb_heap \<Rightarrow> addr option \<Rightarrow> addr option \<Rightarrow> addr option \<Rightarrow> (rb_heap \<times> addr option \<times> addr option) comp" where
  "rb_insert_color_body h rbt par rbn =
     obind (RBN_PARENT h par) (\<lambda>gparent.
     obind (RBN_LEFT h gparent) (\<lambda>gl.
     if par = gl then
       obind (RBN_RIGHT h gparent) (\<lambda>tmp.
       obind (is_red h tmp) (\<lambda>tred.
       if tred then
         obind (set_COLOR h tmp RB_BLACK) (\<lambda>h.
         obind (rb_set_blackred h par gparent) (\<lambda>h.
         ret (h, rbt, gparent)))
       else
         obind (RBN_RIGHT h par) (\<lambda>pr.
         obind (if pr = rbn then
                  obind (rb_rotate_left h rbt par) (\<lambda>(h, rbt). ret (h, rbt, rbn, par))
                else ret (h, rbt, par, rbn)) (\<lambda>(h, rbt, par, rbn).
         obind (rb_set_blackred h par gparent) (\<lambda>h.
         obind (rb_rotate_right h rbt gparent) (\<lambda>(h, rbt).
         ret (h, rbt, rbn)))))))
     else
       obind (RBN_LEFT h gparent) (\<lambda>tmp.
       obind (is_red h tmp) (\<lambda>tred.
       if tred then
         obind (set_COLOR h tmp RB_BLACK) (\<lambda>h.
         obind (rb_set_blackred h par gparent) (\<lambda>h.
         ret (h, rbt, gparent)))
       else
         obind (RBN_LEFT h par) (\<lambda>pl.
         obind (if pl = rbn then
                  obind (rb_rotate_right h rbt par) (\<lambda>(h, rbt). ret (h, rbt, rbn, par))
                else ret (h, rbt, par, rbn)) (\<lambda>(h, rbt, par, rbn).
         obind (rb_set_blackred h par gparent) (\<lambda>h.
         obind (rb_rotate_left h rbt gparent) (\<lambda>(h, rbt).
         ret (h, rbt, rbn)))))))))"

text \<open>The loop of \<open>rb_insert_color\<close>: \<open>while ((parent = RBN_PARENT(rbn)) != NULL &&
  RBN_COLOR(parent) == RB_RED)\<close>.\<close>

partial_function (option) rb_insert_color_while ::
  "rb_heap \<Rightarrow> addr option \<Rightarrow> addr option \<Rightarrow> (rb_heap \<times> addr option) comp" where
  "rb_insert_color_while h rbt rbn =
     obind (RBN_PARENT h rbn) (\<lambda>par.
     obind (is_red h par) (\<lambda>pred.
     if \<not> pred then ret (h, rbt) else
     obind (rb_insert_color_body h rbt par rbn) (\<lambda>(h, rbt, rbn).
     rb_insert_color_while h rbt rbn)))"

declare rb_insert_color_while.simps [code]

definition rb_insert_color :: "rb_heap \<Rightarrow> addr option \<Rightarrow> addr option \<Rightarrow> (rb_heap \<times> addr option) comp" where
  "rb_insert_color h rbt rbn =
     obind (rb_insert_color_while h rbt rbn) (\<lambda>(h, rbt).
     obind (set_COLOR h rbt RB_BLACK) (\<lambda>h.
     ret (h, rbt)))"

text \<open>One pass through the body of the loop of \<open>rb_remove_color\<close>. The result says
  whether the loop goes on (\<open>Inl\<close>: store, root, \<open>parent\<close>, \<open>rbn\<close>) or was left by
  \<open>break\<close> (\<open>Inr\<close>: store, root, \<open>rbn\<close>).\<close>

type_synonym rmc_step =
  "(rb_heap \<times> addr option \<times> addr option \<times> addr option) + (rb_heap \<times> addr option \<times> addr option)"

definition rb_remove_color_left ::
  "rb_heap \<Rightarrow> addr option \<Rightarrow> addr option \<Rightarrow> rmc_step comp" where
  "rb_remove_color_left h rbt par =
       obind (RBN_RIGHT h par) (\<lambda>tmp.
       obind (RBN_COLOR h tmp) (\<lambda>tc.
       obind (if tc = RB_RED then
                obind (rb_set_blackred h tmp par) (\<lambda>h.
                obind (rb_rotate_left h rbt par) (\<lambda>(h, rbt).
                obind (RBN_RIGHT h par) (\<lambda>tmp. ret (h, rbt, tmp))))
              else ret (h, rbt, tmp)) (\<lambda>(h, rbt, tmp).
       obind (RBN_LEFT h tmp) (\<lambda>tl.
       obind (null_or_black h tl) (\<lambda>lb.
       obind (if lb then obind (RBN_RIGHT h tmp) (\<lambda>tr. null_or_black h tr) else ret False) (\<lambda>both.
       if both then
         obind (set_COLOR h tmp RB_RED) (\<lambda>h.
         obind (RBN_PARENT h par) (\<lambda>gp.
         ret (Inl (h, rbt, gp, par))))
       else
         obind (RBN_RIGHT h tmp) (\<lambda>tr.
         obind (null_or_black h tr) (\<lambda>rb.
         obind (if rb then
                  obind (RBN_LEFT h tmp) (\<lambda>oleft.
                  obind (if oleft \<noteq> None then set_COLOR h oleft RB_BLACK else ret h) (\<lambda>h.
                  obind (set_COLOR h tmp RB_RED) (\<lambda>h.
                  obind (rb_rotate_right h rbt tmp) (\<lambda>(h, rbt).
                  obind (RBN_RIGHT h par) (\<lambda>tmp. ret (h, rbt, tmp))))))
                else ret (h, rbt, tmp)) (\<lambda>(h, rbt, tmp).
         obind (RBN_COLOR h par) (\<lambda>pc.
         obind (set_COLOR h tmp pc) (\<lambda>h.
         obind (set_COLOR h par RB_BLACK) (\<lambda>h.
         obind (RBN_RIGHT h tmp) (\<lambda>tr.
         obind (if tr \<noteq> None then set_COLOR h tr RB_BLACK else ret h) (\<lambda>h.
         obind (rb_rotate_left h rbt par) (\<lambda>(h, rbt).
         ret (Inr (h, rbt, rbt)))))))))))))))))"

definition rb_remove_color_right ::
  "rb_heap \<Rightarrow> addr option \<Rightarrow> addr option \<Rightarrow> rmc_step comp" where
  "rb_remove_color_right h rbt par =
       obind (RBN_LEFT h par) (\<lambda>tmp.
       obind (RBN_COLOR h tmp) (\<lambda>tc.
       obind (if tc = RB_RED then
                obind (rb_set_blackred h tmp par) (\<lambda>h.
                obind (rb_rotate_right h rbt par) (\<lambda>(h, rbt).
                obind (RBN_LEFT h par) (\<lambda>tmp. ret (h, rbt, tmp))))
              else ret (h, rbt, tmp)) (\<lambda>(h, rbt, tmp).
       obind (RBN_LEFT h tmp) (\<lambda>tl.
       obind (null_or_black h tl) (\<lambda>lb.
       obind (if lb then obind (RBN_RIGHT h tmp) (\<lambda>tr. null_or_black h tr) else ret False) (\<lambda>both.
       if both then
         obind (set_COLOR h tmp RB_RED) (\<lambda>h.
         obind (RBN_PARENT h par) (\<lambda>gp.
         ret (Inl (h, rbt, gp, par))))
       else
         obind (RBN_LEFT h tmp) (\<lambda>tl.
         obind (null_or_black h tl) (\<lambda>lb.
         obind (if lb then
                  obind (RBN_RIGHT h tmp) (\<lambda>oright.
                  obind (if oright \<noteq> None then set_COLOR h oright RB_BLACK else ret h) (\<lambda>h.
                  obind (set_COLOR h tmp RB_RED) (\<lambda>h.
                  obind (rb_rotate_left h rbt tmp) (\<lambda>(h, rbt).
                  obind (RBN_LEFT h par) (\<lambda>tmp. ret (h, rbt, tmp))))))
                else ret (h, rbt, tmp)) (\<lambda>(h, rbt, tmp).
         obind (RBN_COLOR h par) (\<lambda>pc.
         obind (set_COLOR h tmp pc) (\<lambda>h.
         obind (set_COLOR h par RB_BLACK) (\<lambda>h.
         obind (RBN_LEFT h tmp) (\<lambda>tl.
         obind (if tl \<noteq> None then set_COLOR h tl RB_BLACK else ret h) (\<lambda>h.
         obind (rb_rotate_right h rbt par) (\<lambda>(h, rbt).
         ret (Inr (h, rbt, rbt)))))))))))))))))"

text \<open>The loop of \<open>rb_remove_color\<close>: \<open>while ((rbn == NULL || RBN_COLOR(rbn) == RB_BLACK)
  && rbn != *rbt && parent)\<close>; it returns the store, the root and the final \<open>rbn\<close>.\<close>

partial_function (option) rb_remove_color_while ::
  "rb_heap \<Rightarrow> addr option \<Rightarrow> addr option \<Rightarrow> addr option \<Rightarrow> (rb_heap \<times> addr option \<times> addr option) comp" where
  "rb_remove_color_while h rbt par rbn =
     obind (null_or_black h rbn) (\<lambda>nb.
     if \<not> (nb \<and> rbn \<noteq> rbt \<and> par \<noteq> None) then ret (h, rbt, rbn) else
     obind (RBN_LEFT h par) (\<lambda>pl.
     obind (if pl = rbn then rb_remove_color_left h rbt par
            else rb_remove_color_right h rbt par) (\<lambda>r.
     case r of
       Inl (h, rbt, par, rbn) \<Rightarrow> rb_remove_color_while h rbt par rbn
     | Inr x \<Rightarrow> ret x)))"

declare rb_remove_color_while.simps [code]

definition rb_remove_color ::
  "rb_heap \<Rightarrow> addr option \<Rightarrow> addr option \<Rightarrow> addr option \<Rightarrow> (rb_heap \<times> addr option) comp" where
  "rb_remove_color h rbt par rbn =
     obind (rb_remove_color_while h rbt par rbn) (\<lambda>(h, rbt, rbn).
     obind (if rbn \<noteq> None then set_COLOR h rbn RB_BLACK else ret h) (\<lambda>h.
     ret (h, rbt)))"

text \<open>The descent of \<open>rb_remove\<close> to the leftmost node:
  \<open>while ((tmp = RBN_LEFT(rbn)) != NULL) rbn = tmp\<close>.\<close>

partial_function (option) rb_remove_while :: "rb_heap \<Rightarrow> addr option \<Rightarrow> addr option comp" where
  "rb_remove_while h rbn =
     obind (RBN_LEFT h rbn) (\<lambda>tmp.
     if tmp \<noteq> None then rb_remove_while h tmp else ret rbn)"

declare rb_remove_while.simps [code]

text \<open>\<open>RBN_COPY(DST, SRC)\<close>.\<close>

definition RBN_COPY :: "rb_heap \<Rightarrow> addr option \<Rightarrow> addr option \<Rightarrow> rb_heap comp" where
  "RBN_COPY h dst src =
     obind (RBN_PARENT h src) (\<lambda>v. obind (set_PARENT h dst v) (\<lambda>h.
     obind (RBN_LEFT h src) (\<lambda>v. obind (set_LEFT h dst v) (\<lambda>h.
     obind (RBN_RIGHT h src) (\<lambda>v. obind (set_RIGHT h dst v) (\<lambda>h.
     obind (RBN_COLOR h src) (\<lambda>v. set_COLOR h dst v)))))))"

text \<open>\<open>if (parent != NULL) { if (RBN_LEFT(parent) == rbn) RBN_LEFT(parent) = child;
  else RBN_RIGHT(parent) = child; } else *rbt = child\<close>, used three times in
  \<open>rb_remove\<close>.\<close>

definition rb_replace_child ::
  "rb_heap \<Rightarrow> addr option \<Rightarrow> addr option \<Rightarrow> addr option \<Rightarrow> addr option \<Rightarrow> (rb_heap \<times> addr option) comp" where
  "rb_replace_child h rbt par rbn child =
     (if par \<noteq> None then
        obind (RBN_LEFT h par) (\<lambda>pl.
        obind (if pl = rbn then set_LEFT h par child else set_RIGHT h par child) (\<lambda>h.
        ret (h, rbt)))
      else ret (h, child))"

text \<open>The branch of \<open>rb_remove\<close> for a node with two children, up to \<open>goto color\<close>;
  it returns the store, the root, and \<open>parent\<close>, \<open>child\<close> and \<open>color\<close>.\<close>

definition rb_remove_two ::
  "rb_heap \<Rightarrow> addr option \<Rightarrow> addr option \<Rightarrow> (rb_heap \<times> addr option \<times> addr option \<times> addr option \<times> color) comp" where
  "rb_remove_two h rbt old =
     obind (RBN_RIGHT h old) (\<lambda>r.
     obind (rb_remove_while h r) (\<lambda>rbn.
     obind (RBN_RIGHT h rbn) (\<lambda>child.
     obind (RBN_PARENT h rbn) (\<lambda>par.
     obind (RBN_COLOR h rbn) (\<lambda>col.
     obind (if child \<noteq> None then set_PARENT h child par else ret h) (\<lambda>h.
     obind (rb_replace_child h rbt par rbn child) (\<lambda>(h, rbt).
     obind (RBN_PARENT h rbn) (\<lambda>rp.
     let par = (if rp = old then rbn else par) in
     obind (RBN_COPY h rbn old) (\<lambda>h.
     obind (RBN_PARENT h old) (\<lambda>tmp.
     obind (rb_replace_child h rbt tmp old rbn) (\<lambda>(h, rbt).
     obind (RBN_LEFT h old) (\<lambda>ol.
     obind (set_PARENT h ol rbn) (\<lambda>h.
     obind (RBN_RIGHT h old) (\<lambda>orr.
     obind (if orr \<noteq> None then set_PARENT h orr rbn else ret h) (\<lambda>h.
     ret (h, rbt, par, child, col))))))))))))))))"

text \<open>\<open>rb_remove\<close> returns the store, the root and the removed node \<open>old\<close>.\<close>

definition rb_remove :: "rb_heap \<Rightarrow> addr option \<Rightarrow> addr option \<Rightarrow> (rb_heap \<times> addr option \<times> addr option) comp" where
  "rb_remove h rbt rbn =
     obind (RBN_LEFT h rbn) (\<lambda>l.
     obind (if l = None then ret False else obind (RBN_RIGHT h rbn) (\<lambda>r. ret (r \<noteq> None))) (\<lambda>two.
     obind (if two then rb_remove_two h rbt rbn
            else
              obind (if l = None then RBN_RIGHT h rbn else RBN_LEFT h rbn) (\<lambda>child.
              obind (RBN_PARENT h rbn) (\<lambda>par.
              obind (RBN_COLOR h rbn) (\<lambda>col.
              obind (if child \<noteq> None then set_PARENT h child par else ret h) (\<lambda>h.
              obind (rb_replace_child h rbt par rbn child) (\<lambda>(h, rbt).
              ret (h, rbt, par, child, col))))))) (\<lambda>(h, rbt, par, child, col).
     obind (if col = RB_BLACK then rb_remove_color h rbt par child else ret (h, rbt)) (\<lambda>(h, rbt).
     ret (h, rbt, rbn)))))"

text \<open>\<open>rb_prev\<close>: the two inner loops.\<close>

partial_function (option) rb_prev_down :: "rb_heap \<Rightarrow> addr option \<Rightarrow> addr option comp" where
  "rb_prev_down h rbn =
     obind (RBN_RIGHT h rbn) (\<lambda>r.
     if r \<noteq> None then rb_prev_down h r else ret rbn)"

declare rb_prev_down.simps [code]

text \<open>\<open>while (RBN_PARENT(rbn) && (rbn == RBN_LEFT(RBN_PARENT(rbn)))) rbn =
  RBN_PARENT(rbn)\<close>\<close>

partial_function (option) rb_prev_up :: "rb_heap \<Rightarrow> addr option \<Rightarrow> addr option comp" where
  "rb_prev_up h rbn =
     obind (RBN_PARENT h rbn) (\<lambda>p.
     if p = None then ret rbn else
     obind (RBN_LEFT h p) (\<lambda>pl.
     if rbn = pl then rb_prev_up h p else ret rbn))"

declare rb_prev_up.simps [code]

definition rb_prev :: "rb_heap \<Rightarrow> addr option \<Rightarrow> addr option comp" where
  "rb_prev h rbn =
     obind (RBN_LEFT h rbn) (\<lambda>l.
     if l \<noteq> None then rb_prev_down h l
     else
       obind (RBN_PARENT h rbn) (\<lambda>p.
       obind (if p = None then ret False else obind (RBN_RIGHT h p) (\<lambda>pr. ret (rbn = pr))) (\<lambda>isright.
       if isright then ret p
       else obind (rb_prev_up h rbn) (\<lambda>rbn. RBN_PARENT h rbn))))"

text \<open>\<open>rb_next\<close>, the mirror image.\<close>

partial_function (option) rb_next_down :: "rb_heap \<Rightarrow> addr option \<Rightarrow> addr option comp" where
  "rb_next_down h rbn =
     obind (RBN_LEFT h rbn) (\<lambda>l.
     if l \<noteq> None then rb_next_down h l else ret rbn)"

declare rb_next_down.simps [code]

partial_function (option) rb_next_up :: "rb_heap \<Rightarrow> addr option \<Rightarrow> addr option comp" where
  "rb_next_up h rbn =
     obind (RBN_PARENT h rbn) (\<lambda>p.
     if p = None then ret rbn else
     obind (RBN_RIGHT h p) (\<lambda>pr.
     if rbn = pr then rb_next_up h p else ret rbn))"

declare rb_next_up.simps [code]

definition rb_next :: "rb_heap \<Rightarrow> addr option \<Rightarrow> addr option comp" where
  "rb_next h rbn =
     obind (RBN_RIGHT h rbn) (\<lambda>r.
     if r \<noteq> None then rb_next_down h r
     else
       obind (RBN_PARENT h rbn) (\<lambda>p.
       obind (if p = None then ret False else obind (RBN_LEFT h p) (\<lambda>pl. ret (rbn = pl))) (\<lambda>isleft.
       if isleft then ret p
       else obind (rb_next_up h rbn) (\<lambda>rbn. RBN_PARENT h rbn))))"

section \<open>Data nodes, schema nodes and the comparators\<close>

text \<open>
  The declarations of \<open>struct lysc_node\<close>, \<open>struct lyd_node\<close> and of the flag and node
  type constants are in headers that are not among the sources; the members the code
  reads are modelled here. A schema node carries an identity \<open>sc_id\<close>, so that comparing
  two schema pointers is comparing two records.
\<close>

record lysc_node =
  sc_id :: nat
  nodetype :: "16 word"
  flags :: "16 word"

definition LYS_LEAFLIST :: "16 word" where "LYS_LEAFLIST = 0x0008"
definition LYS_LIST :: "16 word" where "LYS_LIST = 0x0010"
definition LYS_ORDBY_USER :: "16 word" where "LYS_ORDBY_USER = 0x40"
definition LYS_ORDBY_SYSTEM :: "16 word" where "LYS_ORDBY_SYSTEM = 0x80"
definition LYS_KEY :: "16 word" where "LYS_KEY = 0x0100"
definition LYS_KEYLESS :: "16 word" where "LYS_KEYLESS = 0x0200"

text \<open>
  A data node: its schema pointer (null for an opaque node), the value of a term node
  (\<open>struct lyd_node_term\<close>), the children of an inner node in sibling order
  (\<open>struct lyd_node_inner\<close>, \<open>child\<close> and the \<open>next\<close> pointers of the children), and the
  list of its metadata (\<open>meta\<close> and the \<open>next\<close> pointers of the metadata).
\<close>

record 'v lyd_node =
  schema :: "lysc_node option"
  tvalue :: "'v option"
  child :: "addr list"
  meta :: "addr list"

type_synonym 'v lyd_heap = "addr \<Rightarrow> 'v lyd_node option"

definition lyd_rd :: "'v lyd_heap \<Rightarrow> addr option \<Rightarrow> ('v lyd_node \<Rightarrow> 'a) \<Rightarrow> 'a comp" where
  "lyd_rd d p f = (case p of None \<Rightarrow> fault
                   | Some a \<Rightarrow> (case d a of None \<Rightarrow> fault | Some n \<Rightarrow> ret (f n)))"

text \<open>\<open>&((struct lyd_node_term *)n)->value\<close>, read by the sort callback.\<close>

definition lyd_value :: "'v lyd_heap \<Rightarrow> addr option \<Rightarrow> 'v comp" where
  "lyd_value d p = obind (lyd_rd d p tvalue) (\<lambda>v. case v of None \<Rightarrow> fault | Some x \<Rightarrow> ret x)"

text \<open>\<open>rb_sort_clb\<close> calls the \<open>sort\<close> callback of the type plugin; the callback is the
  parameter \<open>srt\<close>.\<close>

definition rb_sort_clb :: "('v \<Rightarrow> 'v \<Rightarrow> int) \<Rightarrow> 'v \<Rightarrow> 'v \<Rightarrow> int" where
  "rb_sort_clb srt val1 val2 = srt val1 val2"

definition rb_compare_leaflists ::
  "('v \<Rightarrow> 'v \<Rightarrow> int) \<Rightarrow> 'v lyd_heap \<Rightarrow> addr option \<Rightarrow> addr option \<Rightarrow> int comp" where
  "rb_compare_leaflists srt d n1 n2 =
     obind (lyd_value d n1) (\<lambda>val1.
     obind (lyd_value d n2) (\<lambda>val2.
     ret (rb_sort_clb srt val1 val2)))"

text \<open>The loop of \<open>rb_compare_lists\<close> over the following keys:
  \<open>while (k1 && k1->schema && (k1->schema->flags & LYS_KEY))\<close>; \<open>k2\<close> is advanced with
  \<open>k1\<close> and read without a test.\<close>

fun rb_compare_lists_while ::
  "('v \<Rightarrow> 'v \<Rightarrow> int) \<Rightarrow> 'v lyd_heap \<Rightarrow> addr list \<Rightarrow> addr list \<Rightarrow> int comp" where
  "rb_compare_lists_while srt d [] ks2 = ret 0"
| "rb_compare_lists_while srt d (k1 # ks1) ks2 =
     obind (lyd_rd d (Some k1) schema) (\<lambda>sc.
     case sc of None \<Rightarrow> ret 0
     | Some s \<Rightarrow>
         if flags s AND LYS_KEY = 0 then ret 0 else
         obind (lyd_value d (Some k1)) (\<lambda>val1.
         obind (case ks2 of [] \<Rightarrow> fault | k2 # _ \<Rightarrow> lyd_value d (Some k2)) (\<lambda>val2.
         let cmp = rb_sort_clb srt val1 val2 in
         if cmp \<noteq> 0 then ret cmp
         else rb_compare_lists_while srt d ks1 (tl ks2))))"

definition rb_compare_lists ::
  "('v \<Rightarrow> 'v \<Rightarrow> int) \<Rightarrow> 'v lyd_heap \<Rightarrow> addr option \<Rightarrow> addr option \<Rightarrow> int comp" where
  "rb_compare_lists srt d n1 n2 =
     obind (lyd_rd d n1 child) (\<lambda>c1.
     obind (lyd_rd d n2 child) (\<lambda>c2.
     obind (case c1 of [] \<Rightarrow> fault | k1 # _ \<Rightarrow> lyd_value d (Some k1)) (\<lambda>val1.
     obind (case c2 of [] \<Rightarrow> fault | k2 # _ \<Rightarrow> lyd_value d (Some k2)) (\<lambda>val2.
     let cmp = rb_sort_clb srt val1 val2 in
     if cmp \<noteq> 0 then ret cmp
     else rb_compare_lists_while srt d (tl c1) (tl c2)))))"

text \<open>The choice of the comparator at the head of \<open>rb_insert_node\<close> and \<open>rb_find\<close>, by
  \<open>RBN_DNODE(rbt)->schema->nodetype\<close>.\<close>

definition rb_compare ::
  "('v \<Rightarrow> 'v \<Rightarrow> int) \<Rightarrow> 'v lyd_heap \<Rightarrow> rb_heap \<Rightarrow> addr option \<Rightarrow>
     (addr option \<Rightarrow> addr option \<Rightarrow> int comp) comp" where
  "rb_compare srt d h rbt =
     obind (RBN_DNODE h rbt) (\<lambda>dn.
     obind (lyd_rd d dn schema) (\<lambda>sc.
     case sc of None \<Rightarrow> fault
     | Some s \<Rightarrow> if nodetype s = LYS_LEAFLIST then ret (rb_compare_leaflists srt d)
                 else ret (rb_compare_lists srt d)))"

text \<open>The descent of \<open>rb_insert_node\<close>; it returns \<open>parent\<close> and \<open>comp\<close>.\<close>

partial_function (option) rb_insert_node_while ::
  "(addr option \<Rightarrow> addr option \<Rightarrow> int comp) \<Rightarrow> rb_heap \<Rightarrow> addr option \<Rightarrow> addr option \<Rightarrow>
     addr option \<Rightarrow> int \<Rightarrow> (addr option \<times> int) comp" where
  "rb_insert_node_while cmpf h rbn tmp par cmp =
     (if tmp = None then ret (par, cmp) else
      obind (RBN_DNODE h tmp) (\<lambda>d1.
      obind (RBN_DNODE h rbn) (\<lambda>d2.
      obind (cmpf d1 d2) (\<lambda>cmp.
      obind (if cmp > 0 then RBN_LEFT h tmp else RBN_RIGHT h tmp) (\<lambda>nxt.
      rb_insert_node_while cmpf h rbn nxt tmp cmp)))))"

declare rb_insert_node_while.simps [code]

definition rb_insert_node ::
  "('v \<Rightarrow> 'v \<Rightarrow> int) \<Rightarrow> 'v lyd_heap \<Rightarrow> rb_heap \<Rightarrow> addr option \<Rightarrow> addr option \<Rightarrow>
     (rb_heap \<times> addr option) comp" where
  "rb_insert_node srt d h rbt rbn =
     obind (rb_compare srt d h rbt) (\<lambda>cmpf.
     obind (rb_insert_node_while cmpf h rbn rbt None 0) (\<lambda>(par, cmp).
     obind (rb_set h rbn par) (\<lambda>h.
     obind (if par \<noteq> None then
              obind (if cmp > 0 then set_LEFT h par rbn else set_RIGHT h par rbn) (\<lambda>h.
              ret (h, rbt))
            else ret (h, rbn)) (\<lambda>(h, rbt).
     rb_insert_color h rbt rbn))))"

text \<open>\<open>rb_find\<close>: the two sequential searches among the nodes having the same value.
  Each returns the node found, or null when the search ends without a match (then
  \<open>rb_find\<close> goes on).\<close>

partial_function (option) rb_find_prevs ::
  "(addr option \<Rightarrow> addr option \<Rightarrow> int comp) \<Rightarrow> rb_heap \<Rightarrow> addr option \<Rightarrow> addr option \<Rightarrow> addr option comp" where
  "rb_find_prevs cmpf h target iter =
     (if iter = None then ret None else
      obind (RBN_DNODE h iter) (\<lambda>d1.
      obind (cmpf d1 target) (\<lambda>cmp.
      if cmp \<noteq> 0 then ret None
      else if d1 = target then ret iter
      else obind (rb_prev h iter) (\<lambda>iter. rb_find_prevs cmpf h target iter))))"

declare rb_find_prevs.simps [code]

partial_function (option) rb_find_nexts ::
  "(addr option \<Rightarrow> addr option \<Rightarrow> int comp) \<Rightarrow> rb_heap \<Rightarrow> addr option \<Rightarrow> addr option \<Rightarrow> addr option comp" where
  "rb_find_nexts cmpf h target iter =
     (if iter = None then ret None else
      obind (RBN_DNODE h iter) (\<lambda>d1.
      obind (cmpf d1 target) (\<lambda>cmp.
      if cmp \<noteq> 0 then ret None
      else if d1 = target then ret iter
      else obind (rb_next h iter) (\<lambda>iter. rb_find_nexts cmpf h target iter))))"

declare rb_find_nexts.simps [code]

text \<open>The \<open>do ... while (iter != NULL)\<close> loop of \<open>rb_find\<close>, entered at the body.\<close>

partial_function (option) rb_find_while ::
  "(addr option \<Rightarrow> addr option \<Rightarrow> int comp) \<Rightarrow> rb_heap \<Rightarrow> addr option \<Rightarrow> addr option \<Rightarrow> addr option comp" where
  "rb_find_while cmpf h target iter =
     obind (RBN_DNODE h iter) (\<lambda>d1.
     obind (cmpf d1 target) (\<lambda>cmp.
     if cmp > 0 then
       obind (RBN_LEFT h iter) (\<lambda>iter.
       if iter \<noteq> None then rb_find_while cmpf h target iter else ret None)
     else if cmp < 0 then
       obind (RBN_RIGHT h iter) (\<lambda>iter.
       if iter \<noteq> None then rb_find_while cmpf h target iter else ret None)
     else if d1 = target then ret iter
     else
       obind (rb_prev h iter) (\<lambda>p.
       obind (rb_find_prevs cmpf h target p) (\<lambda>found.
       if found \<noteq> None then ret found else
       obind (rb_next h iter) (\<lambda>n.
       obind (rb_find_nexts cmpf h target n) (\<lambda>found.
       if found \<noteq> None then ret found else ret None))))))"

declare rb_find_while.simps [code]

definition rb_find ::
  "('v \<Rightarrow> 'v \<Rightarrow> int) \<Rightarrow> 'v lyd_heap \<Rightarrow> rb_heap \<Rightarrow> addr option \<Rightarrow> addr option \<Rightarrow> addr option comp" where
  "rb_find srt d h rbt target =
     obind (RBN_DNODE h rbt) (\<lambda>d0.
     if d0 = target then ret rbt else
     obind (rb_compare srt d h rbt) (\<lambda>cmpf.
     rb_find_while cmpf h target rbt))"

text \<open>\<open>rb_iter_traversal\<close> returns the store, the node and the iterator state
  \<open>*next_state\<close>, which is left as it was when the function returns null.\<close>

partial_function (option) rb_iter_traversal ::
  "rb_heap \<Rightarrow> addr option \<Rightarrow> addr option \<Rightarrow> (rb_heap \<times> addr option \<times> addr option) comp" where
  "rb_iter_traversal h iter next_state =
     (if iter = None then ret (h, None, next_state) else
      obind (RBN_LEFT h iter) (\<lambda>l.
      if l \<noteq> None then rb_iter_traversal h l next_state else
      obind (RBN_RIGHT h iter) (\<lambda>r.
      if r \<noteq> None then rb_iter_traversal h r next_state else
      obind (RBN_PARENT h iter) (\<lambda>par.
      obind (if par = None then ret h else
             obind (RBN_LEFT h par) (\<lambda>pl.
             if pl = iter then set_LEFT h par None else
             obind (RBN_RIGHT h par) (\<lambda>pr.
             if pr = iter then set_RIGHT h par None else ret h))) (\<lambda>h.
      ret (h, iter, par))))))"

declare rb_iter_traversal.simps [code]

definition rb_iter_begin :: "rb_heap \<Rightarrow> addr option \<Rightarrow> addr option \<Rightarrow> (rb_heap \<times> addr option \<times> addr option) comp" where
  "rb_iter_begin h rbt iter_state = rb_iter_traversal h rbt iter_state"

definition rb_iter_next :: "rb_heap \<Rightarrow> addr option \<Rightarrow> (rb_heap \<times> addr option \<times> addr option) comp" where
  "rb_iter_next h iter_state = rb_iter_traversal h iter_state iter_state"

text \<open>The loop of \<open>lyds_free_tree\<close>, entered at its test. Besides the store it returns
  the nodes handed to \<open>rb_free_node\<close>, in the order of the calls.\<close>

partial_function (option) lyds_free_tree_for ::
  "rb_heap \<Rightarrow> addr option \<Rightarrow> addr option \<Rightarrow> addr list \<Rightarrow> (rb_heap \<times> addr list) comp" where
  "lyds_free_tree_for h rbn iter_state freed =
     (case rbn of None \<Rightarrow> ret (h, freed)
      | Some a \<Rightarrow>
          obind (rb_free_node h rbn) (\<lambda>h.
          obind (rb_iter_next h iter_state) (\<lambda>(h, rbn, iter_state).
          lyds_free_tree_for h rbn iter_state (freed @ [a]))))"

declare lyds_free_tree_for.simps [code]

text \<open>\<open>iter_state\<close> is not initialised in the source; it is only read after
  \<open>rb_iter_begin\<close> has returned a node and so has written it.\<close>

definition lyds_free_tree :: "rb_heap \<Rightarrow> addr option \<Rightarrow> (rb_heap \<times> addr list) comp" where
  "lyds_free_tree h rbt =
     obind (rb_iter_begin h rbt None) (\<lambda>(h, rbn, iter_state).
     lyds_free_tree_for h rbn iter_state [])"

section \<open>The document state\<close>

text \<open>
  The metadata of a node (\<open>struct lyd_meta\<close>): its name, the node it is attached to,
  and, for the metadata named \<open>lyds_tree\<close>, the root of the red-black tree kept in its
  value (\<open>struct lyd_value_lyds_tree\<close>, read by \<open>RBT_GET\<close> and written by \<open>RBT_SET\<close>).
\<close>

record lyd_meta =
  name :: string
  mparent :: "addr option"
  lt_rbt :: "addr option"

datatype LY_ERR = LY_SUCCESS | LY_EMEM | LY_EINT

text \<open>
  The state the functions of the file work on: the store of red-black nodes, the store
  of data nodes, the store of metadata, the sequence of siblings that holds the
  (leaf-)list in the order of the \<open>next\<close> pointers, the names of the modules of the
  context, and the results of the coming calls of \<open>calloc\<close> (\<open>None\<close> for a failed
  allocation; every call fails once the list is used up).
\<close>

record 'v world =
  rbs :: rb_heap
  dns :: "'v lyd_heap"
  metas :: "addr \<Rightarrow> lyd_meta option"
  sibs :: "addr list"
  modules :: "string list"
  allocs :: "addr option list"

definition RB_NAME :: string where
  "RB_NAME = ''lyds_tree''"

definition RBT_SET :: "'v world \<Rightarrow> addr option \<Rightarrow> addr option \<Rightarrow> 'v world comp" where
  "RBT_SET w m r = (case m of None \<Rightarrow> fault
                    | Some a \<Rightarrow> (case metas w a of None \<Rightarrow> fault
                        | Some x \<Rightarrow> ret (w\<lparr>metas := (metas w)(a \<mapsto> x\<lparr>lt_rbt := r\<rparr>)\<rparr>)))"

text \<open>The loop \<open>LY_LIST_FOR(leader->meta, iter)\<close> of \<open>lyds_get_rb_tree\<close>; the result is
  the root and \<open>*meta\<close>.\<close>

fun lyds_get_rb_tree_for :: "'v world \<Rightarrow> addr list \<Rightarrow> (addr option \<times> addr option) comp" where
  "lyds_get_rb_tree_for w [] = ret (None, None)"
| "lyds_get_rb_tree_for w (iter # rest) =
     (case metas w iter of None \<Rightarrow> fault
      | Some x \<Rightarrow> if name x = RB_NAME then ret (lt_rbt x, Some iter)
                  else lyds_get_rb_tree_for w rest)"

definition lyds_get_rb_tree :: "'v world \<Rightarrow> addr option \<Rightarrow> (addr option \<times> addr option) comp" where
  "lyds_get_rb_tree w leader =
     obind (lyd_rd (dns w) leader meta) (\<lambda>ms. lyds_get_rb_tree_for w ms)"

text \<open>\<open>calloc(1, sizeof **rbn)\<close>: the next result of the allocator; a new node is
  zeroed.\<close>

definition calloc_rb_node :: "'v world \<Rightarrow> addr option \<times> 'v world" where
  "calloc_rb_node w =
     (case allocs w of [] \<Rightarrow> (None, w)
      | None # rest \<Rightarrow> (None, w\<lparr>allocs := rest\<rparr>)
      | Some a # rest \<Rightarrow>
          (Some a, w\<lparr>allocs := rest,
                     rbs := (rbs w)(a \<mapsto> \<lparr>parent = None, left = None, right = None,
                                             dnode = None, color = RB_BLACK\<rparr>)\<rparr>))"

text \<open>\<open>lyds_create_node\<close> returns the error code, \<open>*rbn\<close> and the state.\<close>

definition lyds_create_node :: "'v world \<Rightarrow> addr option \<Rightarrow> (LY_ERR \<times> addr option \<times> 'v world) comp" where
  "lyds_create_node w node =
     (case calloc_rb_node w of
        (None, w) \<Rightarrow> ret (LY_EMEM, None, w)
      | (Some a, w) \<Rightarrow>
          obind (wr (rbs w) (Some a) (\<lambda>n. n\<lparr>dnode := node\<rparr>)) (\<lambda>h.
          ret (LY_SUCCESS, Some a, w\<lparr>rbs := h\<rparr>)))"

subsection \<open>The primitives of the document tree\<close>

text \<open>
  Modelled from the spec: the functions \<open>lyd_insert_after_node\<close>,
  \<open>lyd_insert_before_node\<close>, \<open>lyd_unlink_meta_single\<close>, \<open>lyd_insert_meta\<close>,
  \<open>lyd_free_meta_single\<close> and \<open>lyd_create_meta\<close> and the macro \<open>LYD_NODE_IS_ALONE\<close> are
  not among the sources. The spec names them as consumed interfaces: primitives to
  splice a node before or after another in the sibling sequence, and an attach, detach
  and lookup mechanism for metadata; freeing the Anchor Record frees the tree it roots
  by the teardown; a run that is alone has exactly one member.
\<close>

fun insert_after :: "addr \<Rightarrow> addr \<Rightarrow> addr list \<Rightarrow> addr list" where
  "insert_after s n [] = []"
| "insert_after s n (x # xs) = (if x = s then x # n # xs else x # insert_after s n xs)"

fun insert_before :: "addr \<Rightarrow> addr \<Rightarrow> addr list \<Rightarrow> addr list" where
  "insert_before s n [] = []"
| "insert_before s n (x # xs) = (if x = s then n # x # xs else x # insert_before s n xs)"

definition lyd_insert_after_node :: "'v world \<Rightarrow> addr option \<Rightarrow> addr option \<Rightarrow> 'v world comp" where
  "lyd_insert_after_node w sibling node =
     (case (sibling, node) of
        (Some s, Some n) \<Rightarrow>
          if s \<in> set (sibs w) then ret (w\<lparr>sibs := insert_after s n (sibs w)\<rparr>) else fault
      | _ \<Rightarrow> fault)"

definition lyd_insert_before_node :: "'v world \<Rightarrow> addr option \<Rightarrow> addr option \<Rightarrow> 'v world comp" where
  "lyd_insert_before_node w sibling node =
     (case (sibling, node) of
        (Some s, Some n) \<Rightarrow>
          if s \<in> set (sibs w) then ret (w\<lparr>sibs := insert_before s n (sibs w)\<rparr>) else fault
      | _ \<Rightarrow> fault)"

text \<open>\<open>node->next\<close> and \<open>node->prev\<close> in the sibling sequence (the previous sibling here
  is null for the first one).\<close>

fun lyd_next :: "addr list \<Rightarrow> addr \<Rightarrow> addr option" where
  "lyd_next [] a = None"
| "lyd_next [x] a = None"
| "lyd_next (x # y # xs) a = (if x = a then Some y else lyd_next (y # xs) a)"

fun lyd_prev :: "addr list \<Rightarrow> addr \<Rightarrow> addr option" where
  "lyd_prev [] a = None"
| "lyd_prev [x] a = None"
| "lyd_prev (x # y # xs) a = (if y = a then Some x else lyd_prev (y # xs) a)"

text \<open>The siblings after a node, in order: what following \<open>next\<close> from \<open>node->next\<close>
  visits.\<close>

definition lyd_after :: "addr list \<Rightarrow> addr \<Rightarrow> addr list" where
  "lyd_after xs a = tl (dropWhile (\<lambda>x. x \<noteq> a) xs)"

definition same_schema :: "'v lyd_heap \<Rightarrow> addr option \<Rightarrow> addr option \<Rightarrow> bool comp" where
  "same_schema d a b =
     obind (lyd_rd d a schema) (\<lambda>sa.
     obind (lyd_rd d b schema) (\<lambda>sb. ret (sa = sb)))"

definition LYD_NODE_IS_ALONE :: "'v world \<Rightarrow> addr option \<Rightarrow> bool comp" where
  "LYD_NODE_IS_ALONE w node =
     (case node of None \<Rightarrow> fault
      | Some a \<Rightarrow>
          obind (case lyd_prev (sibs w) a of None \<Rightarrow> ret False
                 | Some p \<Rightarrow> same_schema (dns w) (Some p) node) (\<lambda>with_prev.
          obind (case lyd_next (sibs w) a of None \<Rightarrow> ret False
                 | Some n \<Rightarrow> same_schema (dns w) (Some n) node) (\<lambda>with_next.
          ret (\<not> with_prev \<and> \<not> with_next))))"

definition lyd_unlink_meta_single :: "'v world \<Rightarrow> addr option \<Rightarrow> 'v world comp" where
  "lyd_unlink_meta_single w m =
     (case m of None \<Rightarrow> ret w
      | Some a \<Rightarrow>
          (case metas w a of None \<Rightarrow> fault
           | Some x \<Rightarrow>
               (case mparent x of None \<Rightarrow> ret w
                | Some p \<Rightarrow>
                    (case dns w p of None \<Rightarrow> fault
                     | Some pn \<Rightarrow>
                         ret (w\<lparr>dns := (dns w)(p \<mapsto> pn\<lparr>meta := removeAll a (meta pn)\<rparr>),
                                 metas := (metas w)(a \<mapsto> x\<lparr>mparent := None\<rparr>)\<rparr>)))))"

definition lyd_insert_meta :: "'v world \<Rightarrow> addr option \<Rightarrow> addr option \<Rightarrow> 'v world comp" where
  "lyd_insert_meta w dst m =
     (case dst of None \<Rightarrow> fault
      | Some p \<Rightarrow>
          (case dns w p of None \<Rightarrow> fault
           | Some pn \<Rightarrow>
               (case m of None \<Rightarrow> ret w
                | Some a \<Rightarrow>
                    (case metas w a of None \<Rightarrow> fault
                     | Some x \<Rightarrow>
                         ret (w\<lparr>dns := (dns w)(p \<mapsto> pn\<lparr>meta := meta pn @ [a]\<rparr>),
                                 metas := (metas w)(a \<mapsto> x\<lparr>mparent := dst\<rparr>)\<rparr>)))))"

definition lyd_free_meta_single :: "'v world \<Rightarrow> addr option \<Rightarrow> 'v world comp" where
  "lyd_free_meta_single w m =
     (case m of None \<Rightarrow> ret w
      | Some a \<Rightarrow>
          obind (lyd_unlink_meta_single w m) (\<lambda>w.
          case metas w a of None \<Rightarrow> fault
          | Some x \<Rightarrow>
              obind (if name x = RB_NAME then lyds_free_tree (rbs w) (lt_rbt x) else ret (rbs w, [])) (\<lambda>(h, _).
              ret (w\<lparr>rbs := h, metas := (metas w)(a := None)\<rparr>))))"

text \<open>\<open>lyd_create_meta\<close> for the name \<open>lyds_tree\<close>: the new metadata has a null root and
  is attached to the node; its allocation takes the next result of the allocator.\<close>

definition lyd_create_meta :: "'v world \<Rightarrow> addr option \<Rightarrow> (LY_ERR \<times> addr option \<times> 'v world) comp" where
  "lyd_create_meta w node =
     (case allocs w of [] \<Rightarrow> ret (LY_EMEM, None, w)
      | None # rest \<Rightarrow> ret (LY_EMEM, None, w\<lparr>allocs := rest\<rparr>)
      | Some a # rest \<Rightarrow>
          obind (lyd_insert_meta
                   (w\<lparr>allocs := rest,
                      metas := (metas w)(a \<mapsto> \<lparr>name = RB_NAME, mparent = None, lt_rbt = None\<rparr>)\<rparr>)
                   node (Some a)) (\<lambda>w.
          ret (LY_SUCCESS, Some a, w)))"

section \<open>Sorted insertion and removal\<close>

text \<open>\<open>rb_remove_node\<close> returns the state, the root \<open>*rbt\<close> and \<open>*removed\<close>. The
  assertions of the source are not part of the model.\<close>

definition rb_remove_node ::
  "('v \<Rightarrow> 'v \<Rightarrow> int) \<Rightarrow> 'v world \<Rightarrow> addr option \<Rightarrow> addr option \<Rightarrow> addr option \<Rightarrow> addr option \<Rightarrow>
     ('v world \<times> addr option \<times> addr option) comp" where
  "rb_remove_node srt w root_meta rbt node removed =
     (if rbt = None then ret (w, rbt, removed) else
      obind (rb_find srt (dns w) (rbs w) rbt node) (\<lambda>rbn.
      obind (rb_remove (rbs w) rbt rbn) (\<lambda>(h, rbt, rbn).
      obind (RBT_SET (w\<lparr>rbs := h\<rparr>) root_meta rbt) (\<lambda>w.
      ret (w, rbt, rbn)))))"

definition lyds_is_supported :: "'v lyd_heap \<Rightarrow> addr option \<Rightarrow> bool comp" where
  "lyds_is_supported d node =
     obind (lyd_rd d node schema) (\<lambda>sc.
     case sc of None \<Rightarrow> ret False
     | Some s \<Rightarrow>
         if flags s AND LYS_ORDBY_SYSTEM = 0 then ret False
         else if nodetype s = LYS_LEAFLIST then ret True
         else if nodetype s = LYS_LIST \<and> flags s AND LYS_KEYLESS = 0 then ret True
         else ret False)"

definition lyds_move_meta :: "'v world \<Rightarrow> addr option \<Rightarrow> addr option \<Rightarrow> 'v world comp" where
  "lyds_move_meta w dst m =
     obind (lyd_unlink_meta_single w m) (\<lambda>w. lyd_insert_meta w dst m)"

text \<open>\<open>lyds_link_data_node\<close> returns the state and \<open>*leader\<close>.\<close>

definition lyds_link_data_node ::
  "'v world \<Rightarrow> addr option \<Rightarrow> addr option \<Rightarrow> addr option \<Rightarrow> addr option \<Rightarrow> ('v world \<times> addr option) comp" where
  "lyds_link_data_node w leader node root_meta rbn =
     obind (rb_prev (rbs w) rbn) (\<lambda>prev.
     if prev \<noteq> None then
       obind (RBN_DNODE (rbs w) prev) (\<lambda>dp.
       obind (RBN_DNODE (rbs w) rbn) (\<lambda>dr.
       obind (lyd_insert_after_node w dp dr) (\<lambda>w.
       ret (w, leader))))
     else
       obind (RBN_DNODE (rbs w) rbn) (\<lambda>dr.
       obind (lyd_insert_before_node w leader dr) (\<lambda>w.
       obind (lyds_move_meta w node root_meta) (\<lambda>w.
       ret (w, node)))))"

text \<open>The loop of \<open>lyds_additionally_create_rb_tree\<close> over the siblings that follow the
  leader: \<open>for (iter = leader->next; iter && (iter->schema == leader->schema); iter =
  iter->next)\<close>. It returns the error code, the state and the root.\<close>

fun lyds_additionally_create_rb_tree_for ::
  "('v \<Rightarrow> 'v \<Rightarrow> int) \<Rightarrow> 'v world \<Rightarrow> addr option \<Rightarrow> addr option \<Rightarrow> addr list \<Rightarrow>
     (LY_ERR \<times> 'v world \<times> addr option) comp" where
  "lyds_additionally_create_rb_tree_for srt w leader rbt [] = ret (LY_SUCCESS, w, rbt)"
| "lyds_additionally_create_rb_tree_for srt w leader rbt (iter # rest) =
     obind (same_schema (dns w) (Some iter) leader) (\<lambda>same.
     if \<not> same then ret (LY_SUCCESS, w, rbt) else
     obind (lyds_create_node w (Some iter)) (\<lambda>(r, rbn, w).
     if r \<noteq> LY_SUCCESS then ret (r, w, rbt) else
     obind (rb_insert_node srt (dns w) (rbs w) rbt rbn) (\<lambda>(h, rbt).
     lyds_additionally_create_rb_tree_for srt (w\<lparr>rbs := h\<rparr>) leader rbt rest)))"

definition lyds_additionally_create_rb_tree ::
  "('v \<Rightarrow> 'v \<Rightarrow> int) \<Rightarrow> 'v world \<Rightarrow> addr option \<Rightarrow> addr option \<Rightarrow> addr option \<Rightarrow>
     (LY_ERR \<times> 'v world \<times> addr option) comp" where
  "lyds_additionally_create_rb_tree srt w leader root_meta rbt =
     obind (lyds_create_node w leader) (\<lambda>(r, rbn, w).
     if r \<noteq> LY_SUCCESS then ret (r, w, rbt) else
     (case leader of None \<Rightarrow> fault
      | Some l \<Rightarrow>
     obind (lyds_additionally_create_rb_tree_for srt w leader rbn (lyd_after (sibs w) l)) (\<lambda>(r, w, rbt).
     if r \<noteq> LY_SUCCESS then ret (r, w, rbt) else
     obind (RBT_SET w root_meta rbt) (\<lambda>w.
     ret (LY_SUCCESS, w, rbt)))))"

text \<open>\<open>lyds_create_metadata\<close> takes the content of \<open>*meta_p\<close> and returns the error
  code, the new content of \<open>*meta_p\<close> and the state. The loop over the modules of the
  context looks for the module named \<open>yang\<close>.\<close>

definition lyds_create_metadata ::
  "'v world \<Rightarrow> addr option \<Rightarrow> addr option \<Rightarrow> (LY_ERR \<times> addr option \<times> 'v world) comp" where
  "lyds_create_metadata w leader meta_p =
     obind (lyds_get_rb_tree w leader) (\<lambda>(_, m).
     if m \<noteq> None then ret (LY_SUCCESS, meta_p, w) else
     (case find (\<lambda>n. n = ''yang'') (modules w) of
        None \<Rightarrow> ret (LY_EINT, meta_p, w)
      | Some modyang \<Rightarrow>
          obind (lyd_create_meta w leader) (\<lambda>(r, m, w).
          if r \<noteq> LY_SUCCESS then ret (r, meta_p, w)
          else ret (LY_SUCCESS, m, w))))"

text \<open>\<open>rb_insert\<close> returns the error code, the state, the root and \<open>*rbn\<close>.\<close>

definition rb_insert ::
  "('v \<Rightarrow> 'v \<Rightarrow> int) \<Rightarrow> 'v world \<Rightarrow> addr option \<Rightarrow> addr option \<Rightarrow>
     (LY_ERR \<times> 'v world \<times> addr option \<times> addr option) comp" where
  "rb_insert srt w node rbt =
     obind (lyds_create_node w node) (\<lambda>(r, rbn, w).
     if r \<noteq> LY_SUCCESS then ret (r, w, rbt, rbn) else
     obind (rb_insert_node srt (dns w) (rbs w) rbt rbn) (\<lambda>(h, rbt).
     ret (LY_SUCCESS, w\<lparr>rbs := h\<rparr>, rbt, rbn)))"

text \<open>\<open>lyds_insert\<close> takes the content of \<open>*leader\<close> and returns the error code, the
  state and the new content of \<open>*leader\<close>. The value returned by
  \<open>lyds_create_metadata\<close> is not looked at in the source.\<close>

definition lyds_insert ::
  "('v \<Rightarrow> 'v \<Rightarrow> int) \<Rightarrow> 'v world \<Rightarrow> addr option \<Rightarrow> addr option \<Rightarrow> (LY_ERR \<times> 'v world \<times> addr option) comp" where
  "lyds_insert srt w leader node =
     obind (lyds_get_rb_tree w node) (\<lambda>(_, root_meta).
     obind (if root_meta \<noteq> None then lyd_free_meta_single w root_meta else ret w) (\<lambda>w.
     obind (lyds_get_rb_tree w leader) (\<lambda>(rbt, root_meta).
     obind (if root_meta = None then
              obind (lyds_create_metadata w leader root_meta) (\<lambda>(_, m, w). ret (w, m))
            else ret (w, root_meta)) (\<lambda>(w, root_meta).
     obind (if rbt = None then lyds_additionally_create_rb_tree srt w leader root_meta rbt
            else ret (LY_SUCCESS, w, rbt)) (\<lambda>(r, w, rbt).
     if r \<noteq> LY_SUCCESS then ret (r, w, leader) else
     obind (rb_insert srt w node rbt) (\<lambda>(r, w, rbt, rbn).
     if r \<noteq> LY_SUCCESS then ret (r, w, leader) else
     obind (lyds_link_data_node w leader node root_meta rbn) (\<lambda>(w, leader).
     obind (RBT_SET w root_meta rbt) (\<lambda>w.
     ret (LY_SUCCESS, w, leader)))))))))"

text \<open>\<open>lyds_unlink\<close>: \<open>leader\<close> is a pointer to the pointer to the leader, so it is null
  (\<open>None\<close>), or points to a null pointer (\<open>Some None\<close>) or to a pointer to a node.\<close>

definition lyds_unlink ::
  "('v \<Rightarrow> 'v \<Rightarrow> int) \<Rightarrow> 'v world \<Rightarrow> addr option option \<Rightarrow> addr option \<Rightarrow> 'v world comp" where
  "lyds_unlink srt w leader node =
     (if node = None \<or> leader = None \<or> leader = Some None then ret w else
      case leader of None \<Rightarrow> ret w
      | Some l \<Rightarrow>
      obind (lyds_get_rb_tree w l) (\<lambda>(rbt, root_meta).
      obind (if root_meta = None then ret True else LYD_NODE_IS_ALONE w l) (\<lambda>stop.
      if stop then ret w else
      obind (if l = node then
               (case l of None \<Rightarrow> fault
                | Some la \<Rightarrow> lyds_move_meta w (lyd_next (sibs w) la) root_meta)
             else ret w) (\<lambda>w.
      obind (rb_remove_node srt w root_meta rbt node None) (\<lambda>(w, rbt, removed).
      obind (rb_free_node (rbs w) removed) (\<lambda>h.
      ret (w\<lparr>rbs := h\<rparr>)))))))"

definition lyds_free_metadata :: "'v world \<Rightarrow> addr option \<Rightarrow> 'v world comp" where
  "lyds_free_metadata w node =
     (if node \<noteq> None then
        obind (lyds_get_rb_tree w node) (\<lambda>(_, root_meta). lyd_free_meta_single w root_meta)
      else ret w)"

definition lyds_compare_single ::
  "('v \<Rightarrow> 'v \<Rightarrow> int) \<Rightarrow> 'v lyd_heap \<Rightarrow> addr option \<Rightarrow> addr option \<Rightarrow> int comp" where
  "lyds_compare_single srt d node1 node2 =
     obind (lyd_rd d node1 schema) (\<lambda>sc.
     case sc of None \<Rightarrow> fault
     | Some s \<Rightarrow> if nodetype s = LYS_LEAFLIST then rb_compare_leaflists srt d node1 node2
                 else rb_compare_lists srt d node1 node2)"

section \<open>Concrete states used to exercise the theorems\<close>

definition int_sort :: "int \<Rightarrow> int \<Rightarrow> int" where
  "int_sort a b = a - b"

definition ll_schema :: lysc_node where
  "ll_schema = \<lparr>sc_id = 1, nodetype = LYS_LEAFLIST, flags = LYS_ORDBY_SYSTEM\<rparr>"

definition ll_node :: "int \<Rightarrow> addr list \<Rightarrow> int lyd_node" where
  "ll_node v ms = \<lparr>schema = Some ll_schema, tvalue = Some v, child = [], meta = ms\<rparr>"

definition anchor :: "addr \<Rightarrow> addr option \<Rightarrow> lyd_meta" where
  "anchor p r = \<lparr>name = RB_NAME, mparent = Some p, lt_rbt = r\<rparr>"

text \<open>A leader (value 5) alone in its run, holding an Anchor Record with an empty root;
  node 2 (value 3) stands alone outside the sequence.\<close>

definition w_single :: "addr option list \<Rightarrow> int world" where
  "w_single al = \<lparr>rbs = Map.empty,
                  dns = [1 \<mapsto> ll_node 5 [20], 2 \<mapsto> ll_node 3 []],
                  metas = [20 \<mapsto> anchor 1 None],
                  sibs = [1], modules = [''yang''], allocs = al\<rparr>"

text \<open>The same leader without an Anchor Record, in a context that has no module named
  \<open>yang\<close>.\<close>

definition w_noyang :: "int world" where
  "w_noyang = \<lparr>rbs = Map.empty,
               dns = [1 \<mapsto> ll_node 5 [], 2 \<mapsto> ll_node 3 []],
               metas = Map.empty,
               sibs = [1], modules = [''ietf-interfaces''], allocs = [Some 10, Some 11]\<rparr>"


section \<open>Basic facts about outcomes\<close>

lemma obind_ret [simp]: "obind (ret x) f = f x"
  by (simp add: obind_def ret_def)

lemma obind_fault [simp]: "obind fault f = fault"
  by (simp add: obind_def fault_def)

lemma obind_None [simp]: "obind None f = None"
  by (simp add: obind_def)

lemma ret_neq [simp]: "ret x \<noteq> fault" "fault \<noteq> ret x" "ret x \<noteq> None" "fault \<noteq> None"
  "None \<noteq> ret x" "None \<noteq> fault"
  by (simp_all add: ret_def fault_def)

lemma ret_inj [simp]: "(ret x = ret y) = (x = y)"
  by (simp add: ret_def)

lemma obind_eq_ret: "(obind m f = ret y) = (\<exists>x. m = ret x \<and> f x = ret y)"
  by (auto simp: obind_def ret_def split: option.splits res.splits)

lemma obind_retE:
  assumes "obind m f = ret y"
  obtains x where "m = ret x" and "f x = ret y"
  using assms by (auto simp: obind_eq_ret)

lemma lyd_rd_Some [simp]: "d a = Some n \<Longrightarrow> lyd_rd d (Some a) f = ret (f n)"
  by (simp add: lyd_rd_def)

section \<open>The applicability predicate\<close>

text \<open>
  Claim C9. For a node that has a schema, \<open>lyds_is_supported\<close> returns true exactly when
  the schema is flagged system-ordered and the node is a leaf-list, or a list that is
  not flagged keyless. So it returns false for every node that is not system-ordered
  (user-ordered lists and leaf-lists) and for keyless lists.
\<close>

theorem lyds_is_supported_iff:
  assumes "d a = Some n" and "schema n = Some s"
  shows "lyds_is_supported d (Some a) =
           ret (flags s AND LYS_ORDBY_SYSTEM \<noteq> 0 \<and>
                (nodetype s = LYS_LEAFLIST \<or> (nodetype s = LYS_LIST \<and> flags s AND LYS_KEYLESS = 0)))"
  using assms by (simp add: lyds_is_supported_def)

theorem lyds_is_supported_iff_witness:
  "lyds_is_supported [1 \<mapsto> ll_node 5 []] (Some 1) = ret True"
  using lyds_is_supported_iff [of "[1 \<mapsto> ll_node 5 []]" 1 "ll_node 5 []" ll_schema]
  by (simp add: ll_node_def ll_schema_def LYS_ORDBY_SYSTEM_def)

section \<open>Absent inputs and the cases in which removal does nothing\<close>

text \<open>
  Claim C10. \<open>lyds_unlink\<close> called with a null node, with a null leader reference or
  with a leader reference to a null pointer returns at once and leaves the state as it
  was; \<open>lyds_is_supported\<close> returns false for a node without a schema.
\<close>

theorem lyds_unlink_absent:
  "lyds_unlink srt w leader None = ret w \<and>
   lyds_unlink srt w None node = ret w \<and>
   lyds_unlink srt w (Some None) node = ret w \<and>
   (d a = Some n \<and> schema n = None \<longrightarrow> lyds_is_supported d (Some a) = ret False)"
  by (simp add: lyds_unlink_def lyds_is_supported_def)

theorem lyds_unlink_absent_witness:
  "lyds_unlink int_sort (w_single []) (Some (Some 1)) None = ret (w_single []) \<and>
   lyds_unlink int_sort (w_single []) None (Some 1) = ret (w_single []) \<and>
   lyds_unlink int_sort (w_single []) (Some None) (Some 1) = ret (w_single []) \<and>
   lyds_is_supported [3 \<mapsto> \<lparr>schema = None, tvalue = Some (0::int), child = [], meta = []\<rparr>] (Some 3)
     = ret False"
  using lyds_unlink_absent [of int_sort "w_single []" "Some (Some 1)" "Some 1"
      "[3 \<mapsto> \<lparr>schema = None, tvalue = Some (0::int), child = [], meta = []\<rparr>]" 3
      "\<lparr>schema = None, tvalue = Some (0::int), child = [], meta = []\<rparr>"]
  by simp

text \<open>
  Claim C7. \<open>lyds_unlink\<close> does nothing when the leader carries no Anchor Record, and
  when the leader is the only member of its run: it returns the state unchanged (the
  tree, the Anchor Record, and the metadata and linkage of every node).
\<close>

theorem lyds_unlink_noop:
  assumes "lyds_get_rb_tree w (Some l) = ret (r, m)"
    and "m = None \<or> LYD_NODE_IS_ALONE w (Some l) = ret True"
  shows "lyds_unlink srt w (Some (Some l)) node = ret w"
  using assms by (auto simp: lyds_unlink_def)

theorem lyds_unlink_noop_witness:
  "lyds_unlink int_sort (w_single []) (Some (Some 1)) (Some 1) = ret (w_single [])"
proof -
  have g: "lyds_get_rb_tree (w_single []) (Some 1) = ret (None, Some 20)"
    by (simp add: lyds_get_rb_tree_def w_single_def ll_node_def anchor_def)
  have a: "LYD_NODE_IS_ALONE (w_single []) (Some 1) = ret True"
    by (simp add: LYD_NODE_IS_ALONE_def w_single_def)
  show ?thesis
    using lyds_unlink_noop [OF g, of int_sort "Some 1"] a by simp
qed

section \<open>Failure of the insertion\<close>

text \<open>
  Claim C6. In a context without the module \<open>yang\<close>, \<open>lyds_create_metadata\<close> fails with
  \<open>LY_EINT\<close> for a leader that has no Anchor Record. \<open>lyds_insert\<close> does not look at
  that result: it goes on with a null \<open>root_meta\<close>, and \<open>RBT_SET\<close> in
  \<open>lyds_additionally_create_rb_tree\<close> writes through the null pointer. The error is not
  returned to the caller of \<open>lyds_insert\<close>.
\<close>

theorem lyds_insert_noyang_fault:
  "lyds_create_metadata w_noyang (Some 1) None = ret (LY_EINT, None, w_noyang) \<and>
   lyds_insert int_sort w_noyang (Some 1) (Some 2) = fault"
  by (simp add: lyds_insert_def lyds_create_metadata_def lyds_get_rb_tree_def w_noyang_def ll_node_def
     lyds_additionally_create_rb_tree_def lyds_create_node_def calloc_rb_node_def wr_def lyd_after_def
     RBT_SET_def)












lemma lyds_get_rb_tree_for_root:
  "lyds_get_rb_tree_for w ms = ret (Some r, m) \<Longrightarrow> m \<noteq> None"
  by (induction ms) (auto split: option.splits if_splits)








text \<open>\<open>lyds_insert\<close> after its first four steps, when the leader carries an Anchor
  Record or one has been created for it.\<close>

lemma lyds_insert_anchored:
  assumes g0: "lyds_get_rb_tree w node = ret (x0, m0)"
    and f1: "(if m0 \<noteq> None then lyd_free_meta_single w m0 else ret w) = ret w1"
    and g1: "lyds_get_rb_tree w1 leader = ret (rt1, m1)"
    and c2: "(if m1 = None then
                obind (lyds_create_metadata w1 leader m1) (\<lambda>(_, m, w). ret (w, m))
              else ret (w1, m1)) = ret (w2, Some m2)"
  shows "lyds_insert srt w leader node =
     obind (if rt1 = None then lyds_additionally_create_rb_tree srt w2 leader (Some m2) rt1
            else ret (LY_SUCCESS, w2, rt1)) (\<lambda>(r, w, rbt).
     if r \<noteq> LY_SUCCESS then ret (r, w, leader) else
     obind (rb_insert srt w node rbt) (\<lambda>(r, w, rbt, rbn).
     if r \<noteq> LY_SUCCESS then ret (r, w, leader) else
     obind (lyds_link_data_node w leader node (Some m2) rbn) (\<lambda>(w, leader).
     obind (RBT_SET w (Some m2) rbt) (\<lambda>w.
     ret (LY_SUCCESS, w, leader)))))"
  unfolding lyds_insert_def
  by (simp only: g0 obind_ret prod.case f1 g1 c2)








text \<open>A run of two (values 5 and 7) whose Anchor Record has an empty root, with an
  allocator that gives one cell and then fails; and the state a failed build leaves
  behind.\<close>

definition w_pair :: "int world" where
  "w_pair = \<lparr>rbs = Map.empty,
             dns = [1 \<mapsto> ll_node 5 [20], 2 \<mapsto> ll_node 3 [], 3 \<mapsto> ll_node 7 []],
             metas = [20 \<mapsto> anchor 1 None],
             sibs = [1, 3], modules = [''yang''], allocs = [Some 10]\<rparr>"

definition w_pair_failed :: "int world" where
  "w_pair_failed = \<lparr>rbs = [10 \<mapsto> \<lparr>parent = None, left = None, right = None, dnode = Some 1, color = RB_BLACK\<rparr>],
             dns = [1 \<mapsto> ll_node 5 [20], 2 \<mapsto> ll_node 3 [], 3 \<mapsto> ll_node 7 []],
             metas = [20 \<mapsto> anchor 1 None],
             sibs = [1, 3], modules = [''yang''], allocs = []\<rparr>"

lemma build_pair:
  "lyds_additionally_create_rb_tree int_sort w_pair (Some 1) (Some 20) None
     = ret (LY_EMEM, w_pair_failed, Some 10)"
  by (simp add: lyds_additionally_create_rb_tree_def lyds_create_node_def calloc_rb_node_def wr_def
      lyd_after_def w_pair_def w_pair_failed_def same_schema_def ll_node_def)





text \<open>Outside the amended claim: a build that fails after its first allocation returns
  with the cells it has allocated neither freed nor stored in the Anchor Record.\<close>

lemma lyds_insert_build_leak:
  "lyds_insert int_sort w_pair (Some 1) (Some 2) = ret (LY_EMEM, w_pair_failed, Some 1) \<and>
   rbs w_pair 10 = None \<and> rbs w_pair_failed 10 \<noteq> None \<and>
   lyds_get_rb_tree w_pair_failed (Some 1) = ret (None, Some 20)"
proof -
  have d0: "lyds_get_rb_tree w_pair (Some 2) = ret (None, None)"
    and d1: "lyds_get_rb_tree w_pair (Some 1) = ret (None, Some 20)"
    by (simp_all add: lyds_get_rb_tree_def w_pair_def ll_node_def anchor_def)
  have d2: "(if (None :: addr option) \<noteq> None then lyd_free_meta_single w_pair None
             else ret w_pair) = ret w_pair"
    by simp
  have d4: "(if Some (20::nat) = None then
               obind (lyds_create_metadata w_pair (Some 1) (Some 20)) (\<lambda>(_, m, w). ret (w, m))
             else ret (w_pair, Some 20)) = ret (w_pair, Some 20)"
    by simp
  have "lyds_insert int_sort w_pair (Some 1) (Some 2) = ret (LY_EMEM, w_pair_failed, Some 1)"
    unfolding lyds_insert_anchored [OF d0 d2 d1 d4] by (simp only: build_pair obind_ret prod.case) simp
  moreover have "lyds_get_rb_tree w_pair_failed (Some 1) = ret (None, Some 20)"
    by (simp add: lyds_get_rb_tree_def w_pair_failed_def ll_node_def anchor_def)
  ultimately show ?thesis
    by (simp add: w_pair_def w_pair_failed_def)
qed

section \<open>Trees in the store\<close>

text \<open>
  The tree a store holds is described by a value of \<open>rbtree\<close>: every node carries its
  address, its colour and its data node. \<open>rep h par p t\<close> says that the pointer \<open>p\<close> leads,
  in the store \<open>h\<close>, to the tree \<open>t\<close> whose root has the parent pointer \<open>par\<close>.
\<close>

datatype rbtree = Leaf | Node rbtree addr color "addr option" rbtree

fun addrs :: "rbtree \<Rightarrow> addr list" where
  "addrs Leaf = []"
| "addrs (Node l a c d r) = addrs l @ a # addrs r"

fun rep :: "rb_heap \<Rightarrow> addr option \<Rightarrow> addr option \<Rightarrow> rbtree \<Rightarrow> bool" where
  "rep h par p Leaf = (p = None)"
| "rep h par p (Node l a c d r) =
     (p = Some a \<and>
      (case h a of None \<Rightarrow> False
       | Some n \<Rightarrow> parent n = par \<and> color n = c \<and> dnode n = d \<and>
                   rep h (Some a) (left n) l \<and> rep h (Some a) (right n) r))"

text \<open>
  A position in a tree is the subtree at the position and the path from it up to the
  root: a list of frames, the parent of the position first. \<open>LF\<close> is a parent whose left
  child is the position, \<open>RF\<close> one whose right child is. \<open>repc h c p par rt\<close> says that in
  the store \<open>h\<close> the path \<open>c\<close> leads from the position, whose pointer is \<open>p\<close> and whose
  parent pointer is \<open>par\<close>, up to the root \<open>rt\<close>.
\<close>

datatype frame = LF addr color "addr option" rbtree | RF rbtree addr color "addr option"

fun plug :: "frame list \<Rightarrow> rbtree \<Rightarrow> rbtree" where
  "plug [] t = t"
| "plug (LF a c d r # fs) t = plug fs (Node t a c d r)"
| "plug (RF l a c d # fs) t = plug fs (Node l a c d t)"

fun addrs_c :: "frame list \<Rightarrow> addr list" where
  "addrs_c [] = []"
| "addrs_c (LF a c d r # fs) = a # addrs r @ addrs_c fs"
| "addrs_c (RF l a c d # fs) = a # addrs l @ addrs_c fs"

fun repc :: "rb_heap \<Rightarrow> frame list \<Rightarrow> addr option \<Rightarrow> addr option \<Rightarrow> addr option \<Rightarrow> bool" where
  "repc h [] p par rt = (par = None \<and> rt = p)"
| "repc h (LF a c d r # fs) p par rt =
     (par = Some a \<and>
      (case h a of None \<Rightarrow> False
       | Some n \<Rightarrow> left n = p \<and> color n = c \<and> dnode n = d \<and>
                   rep h (Some a) (right n) r \<and> repc h fs (Some a) (parent n) rt))"
| "repc h (RF l a c d # fs) p par rt =
     (par = Some a \<and>
      (case h a of None \<Rightarrow> False
       | Some n \<Rightarrow> right n = p \<and> color n = c \<and> dnode n = d \<and>
                   rep h (Some a) (left n) l \<and> repc h fs (Some a) (parent n) rt))"

lemma rep_frame:
  "(\<And>a. a \<in> set (addrs t) \<Longrightarrow> h' a = h a) \<Longrightarrow> rep h' par p t = rep h par p t"
  by (induction t arbitrary: par p) (auto split: option.splits)

lemma repc_frame:
  "(\<And>a. a \<in> set (addrs_c c) \<Longrightarrow> h' a = h a) \<Longrightarrow> repc h' c p par rt = repc h c p par rt"
proof (induction c arbitrary: p par)
  case Nil
  then show ?case by simp
next
  case (Cons f c)
  show ?case
  proof (cases f)
    case (LF a col d r)
    have "rep h' (Some a) q r = rep h (Some a) q r" for q
      by (rule rep_frame) (simp add: Cons.prems LF)
    moreover have "repc h' c (Some a) q rt = repc h c (Some a) q rt" for q
      by (rule Cons.IH) (simp add: Cons.prems LF)
    moreover have "h' a = h a" by (simp add: Cons.prems LF)
    ultimately show ?thesis by (simp add: LF split: option.splits)
  next
    case (RF l a col d)
    have "rep h' (Some a) q l = rep h (Some a) q l" for q
      by (rule rep_frame) (simp add: Cons.prems RF)
    moreover have "repc h' c (Some a) q rt = repc h c (Some a) q rt" for q
      by (rule Cons.IH) (simp add: Cons.prems RF)
    moreover have "h' a = h a" by (simp add: Cons.prems RF)
    ultimately show ?thesis by (simp add: RF split: option.splits)
  qed
qed

lemma rep_plug:
  "rep h None rt (plug c t) = (\<exists>p par. repc h c p par rt \<and> rep h par p t)"
proof (induction c arbitrary: t)
  case Nil
  then show ?case by auto
next
  case (Cons f c)
  show ?case
    by (cases f) (auto simp: Cons.IH split: option.splits)
qed

lemma addrs_plug: "set (addrs (plug c t)) = set (addrs t) \<union> set (addrs_c c)"
proof (induction c arbitrary: t)
  case Nil
  then show ?case by simp
next
  case (Cons f c)
  show ?case by (cases f) (auto simp: Cons.IH)
qed

lemma distinct_plug: "distinct (addrs (plug c t)) = distinct (addrs t @ addrs_c c)"
proof (induction c arbitrary: t)
  case Nil
  then show ?case by simp
next
  case (Cons f c)
  show ?case by (cases f) (auto simp: Cons.IH)
qed

lemma rep_root: "rep h par (Some x) t \<Longrightarrow> x \<in> set (addrs t)"
  by (cases t) auto

lemma rep_alloc: "rep h par p t \<Longrightarrow> a \<in> set (addrs t) \<Longrightarrow> h a \<noteq> None"
  by (induction t arbitrary: par p) (auto split: option.splits)

lemma repc_alloc: "repc h c p par rt \<Longrightarrow> a \<in> set (addrs_c c) \<Longrightarrow> h a \<noteq> None"
proof (induction c arbitrary: p par)
  case Nil
  then show ?case by simp
next
  case (Cons f c)
  then show ?case
    by (cases f) (auto split: option.splits dest: rep_alloc)
qed

lemma rd_Some [simp]: "h a = Some n \<Longrightarrow> rd h (Some a) f = ret (f n)"
  by (simp add: rd_def)

lemma wr_Some [simp]: "h a = Some n \<Longrightarrow> wr h (Some a) u = ret (h(a \<mapsto> u n))"
  by (simp add: wr_def)

lemmas acc_defs = RBN_LEFT_def RBN_RIGHT_def RBN_PARENT_def RBN_DNODE_def RBN_COLOR_def
  set_LEFT_def set_RIGHT_def set_PARENT_def set_COLOR_def

lemma rep_SomeE:
  assumes "rep h par (Some x) t"
  obtains l c d r n where "t = Node l x c d r" and "h x = Some n" and "parent n = par"
    and "color n = c" and "dnode n = d" and "rep h (Some x) (left n) l"
    and "rep h (Some x) (right n) r"
  using assms by (cases t) (auto split: option.splits)

lemma rep_None [simp]: "rep h par None t = (t = Leaf)"
  by (cases t) auto

lemma rep_not_in: "rep h par p t \<Longrightarrow> x \<notin> set (addrs t) \<Longrightarrow> p \<noteq> Some x"
  by (cases t) auto

lemma iter_descend:
  assumes "rep h par (Some x) t" and "repc h c (Some x) par rt" and "distinct (addrs t @ addrs_c c)"
  shows "\<exists>h' a pa c2 rt'. rb_iter_traversal h (Some x) ns = ret (h', Some a, pa) \<and>
           repc h' c2 None pa rt' \<and> h' a \<noteq> None \<and> a \<notin> set (addrs_c c2) \<and> distinct (addrs_c c2) \<and>
           insert a (set (addrs_c c2)) = set (addrs t) \<union> set (addrs_c c) \<and>
           (\<forall>b. b \<notin> set (addrs t) \<union> set (addrs_c c) \<longrightarrow> h' b = h b)"
  using assms
proof (induction t arbitrary: par x c)
  case Leaf
  then show ?case by simp
next
  case (Node l y col d r)
  from Node.prems(1) obtain n where
    xy: "y = x" and hx: "h x = Some n" and pn: "parent n = par" and cn: "color n = col"
    and dn: "dnode n = d" and rl: "rep h (Some x) (left n) l" and rr: "rep h (Some x) (right n) r"
    by (auto split: option.splits)
  note dist = Node.prems(3) [unfolded xy]
  note rc = Node.prems(2)
  show ?case
  proof (cases "left n")
    case (Some xl)
    have unf: "rb_iter_traversal h (Some x) ns = rb_iter_traversal h (Some xl) ns"
      by (subst rb_iter_traversal.simps) (simp add: acc_defs hx Some)
    have rc': "repc h (LF x col d r # c) (Some xl) (Some x) rt"
      using hx Some cn dn rr rc pn by simp
    have d': "distinct (addrs l @ addrs_c (LF x col d r # c))"
      using dist by auto
    have eq: "set (addrs l) \<union> set (addrs_c (LF x col d r # c)) =
        set (addrs (Node l y col d r)) \<union> set (addrs_c c)"
      using xy by auto
    from Node.IH(1) [OF rl [unfolded Some] rc' d']
    show ?thesis unfolding unf eq .
  next
    case None
    note ln = None
    with rl have lL: "l = Leaf" by simp
    show ?thesis
    proof (cases "right n")
      case (Some xr)
      have unf: "rb_iter_traversal h (Some x) ns = rb_iter_traversal h (Some xr) ns"
        by (subst rb_iter_traversal.simps) (simp add: acc_defs hx Some ln)
      have rc': "repc h (RF Leaf x col d # c) (Some xr) (Some x) rt"
        using hx Some cn dn ln rc pn by simp
      have d': "distinct (addrs r @ addrs_c (RF Leaf x col d # c))"
        using dist by auto
      have eq: "set (addrs r) \<union> set (addrs_c (RF Leaf x col d # c)) =
          set (addrs (Node l y col d r)) \<union> set (addrs_c c)"
        using xy lL by auto
      from Node.IH(2) [OF rr [unfolded Some] rc' d']
      show ?thesis unfolding unf eq .
    next
      case None
      note rn = None
      with rr have rL: "r = Leaf" by simp
      show ?thesis
      proof (cases c)
        case Nil
        with rc pn have "parent n = None" by simp
        then have "rb_iter_traversal h (Some x) ns = ret (h, Some x, None)"
          by (subst rb_iter_traversal.simps) (simp add: acc_defs hx ln rn)
        moreover have "repc h [] None None None" by simp
        ultimately show ?thesis
          using hx lL rL xy Nil
          by (intro exI [of _ h] exI [of _ x] exI [of _ None] exI [of _ "[]"]) auto
      next
        case (Cons f c')
        show ?thesis
        proof (cases f)
          case (LF p pc pd pr)
          from rc Cons LF pn obtain m where
            par: "parent n = Some p" and hp: "h p = Some m" and lm: "left m = Some x"
            and cm: "color m = pc" and dm: "dnode m = pd"
            and rpr: "rep h (Some p) (right m) pr" and rc'': "repc h c' (Some p) (parent m) rt"
            by (auto split: option.splits)
          define h' where "h' = h(p \<mapsto> m\<lparr>left := None\<rparr>)"
          have ev: "rb_iter_traversal h (Some x) ns = ret (h', Some x, Some p)"
            by (subst rb_iter_traversal.simps) (simp add: acc_defs hx ln rn par hp lm h'_def)
          have pnotin: "p \<notin> set (addrs pr)" "p \<notin> set (addrs_c c')" "p \<noteq> x"
            using dist Cons LF by auto
          have "rep h' (Some p) (right m) pr"
            using rpr pnotin by (subst rep_frame [of _ _ h]) (auto simp: h'_def)
          moreover have "repc h' c' (Some p) (parent m) rt"
            using rc'' pnotin by (subst repc_frame [of _ _ h]) (auto simp: h'_def)
          ultimately have "repc h' c None (Some p) rt"
            using Cons LF cm dm by (simp add: h'_def)
          moreover have "h' x \<noteq> None" using hx pnotin by (simp add: h'_def)
          moreover have "\<forall>b. b \<notin> set (addrs (Node l y col d r)) \<union> set (addrs_c c) \<longrightarrow> h' b = h b"
            using Cons LF by (simp add: h'_def)
          ultimately show ?thesis
            using ev dist lL rL xy
            by (intro exI [of _ h'] exI [of _ x] exI [of _ "Some p"] exI [of _ c] exI [of _ rt]) auto
        next
          case (RF pl p pc pd)
          from rc Cons RF pn obtain m where
            par: "parent n = Some p" and hp: "h p = Some m" and rm: "right m = Some x"
            and cm: "color m = pc" and dm: "dnode m = pd"
            and rpl: "rep h (Some p) (left m) pl" and rc'': "repc h c' (Some p) (parent m) rt"
            by (auto split: option.splits)
          have pnotin: "p \<notin> set (addrs pl)" "p \<notin> set (addrs_c c')" "p \<noteq> x" "x \<notin> set (addrs pl)"
            using dist Cons RF by auto
          have lm: "left m \<noteq> Some x"
            using rep_not_in [OF rpl pnotin(4)] .
          define h' where "h' = h(p \<mapsto> m\<lparr>right := None\<rparr>)"
          have ev: "rb_iter_traversal h (Some x) ns = ret (h', Some x, Some p)"
            using lm
            by (subst rb_iter_traversal.simps) (simp add: acc_defs hx ln rn par hp rm h'_def)
          have "rep h' (Some p) (left m) pl"
            using rpl pnotin by (subst rep_frame [of _ _ h]) (auto simp: h'_def)
          moreover have "repc h' c' (Some p) (parent m) rt"
            using rc'' pnotin by (subst repc_frame [of _ _ h]) (auto simp: h'_def)
          ultimately have "repc h' c None (Some p) rt"
            using Cons RF cm dm by (simp add: h'_def)
          moreover have "h' x \<noteq> None" using hx pnotin by (simp add: h'_def)
          moreover have "\<forall>b. b \<notin> set (addrs (Node l y col d r)) \<union> set (addrs_c c) \<longrightarrow> h' b = h b"
            using Cons RF by (simp add: h'_def)
          ultimately show ?thesis
            using ev dist lL rL xy
            by (intro exI [of _ h'] exI [of _ x] exI [of _ "Some p"] exI [of _ c] exI [of _ rt]) auto
        qed
      qed
    qed
  qed
qed

section \<open>The teardown\<close>

lemma repc_NoneE:
  assumes "repc h (f # c) None par rt"
  obtains p m t where "par = Some p" and "h p = Some m" and "rep h (parent m) (Some p) t"
    and "repc h c (Some p) (parent m) rt"
    and "set (addrs t) \<union> set (addrs_c c) = set (addrs_c (f # c))"
    and "distinct (addrs_c (f # c)) = distinct (addrs t @ addrs_c c)"
proof (cases f)
  case (LF p pc pd pr)
  with assms obtain m where "par = Some p" "h p = Some m" "left m = None" "color m = pc"
    "dnode m = pd" "rep h (Some p) (right m) pr" "repc h c (Some p) (parent m) rt"
    by (auto split: option.splits)
  then have "rep h (parent m) (Some p) (Node Leaf p pc pd pr)" by simp
  with that [of p m "Node Leaf p pc pd pr"] \<open>par = Some p\<close> \<open>h p = Some m\<close>
    \<open>repc h c (Some p) (parent m) rt\<close> LF
  show ?thesis by auto
next
  case (RF pl p pc pd)
  with assms obtain m where "par = Some p" "h p = Some m" "right m = None" "color m = pc"
    "dnode m = pd" "rep h (Some p) (left m) pl" "repc h c (Some p) (parent m) rt"
    by (auto split: option.splits)
  then have "rep h (parent m) (Some p) (Node pl p pc pd Leaf)" by simp
  with that [of p m "Node pl p pc pd Leaf"] \<open>par = Some p\<close> \<open>h p = Some m\<close>
    \<open>repc h c (Some p) (parent m) rt\<close> RF
  show ?thesis by auto
qed

lemma free_loop:
  assumes "repc h c None par rt" and "distinct (addrs_c c)" and "h a \<noteq> None"
    and "a \<notin> set (addrs_c c)"
  shows "\<exists>fs. lyds_free_tree_for h (Some a) par freed =
             ret (\<lambda>b. if b = a \<or> b \<in> set (addrs_c c) then None else h b, freed @ a # fs) \<and>
           distinct fs \<and> set fs = set (addrs_c c)"
  using assms
proof (induction "length (addrs_c c)" arbitrary: h c par rt a freed rule: less_induct)
  case less
  define h1 where "h1 = h(a := None)"
  from less.prems(3) have fr: "rb_free_node h (Some a) = ret h1"
    by (auto simp: rb_free_node_def h1_def)
  have rc1: "repc h1 c None par rt"
    using less.prems(1,4) by (subst repc_frame [of _ _ h]) (auto simp: h1_def)
  show ?case
  proof (cases c)
    case Nil
    with less.prems(1) have "par = None" by simp
    then have "lyds_free_tree_for h (Some a) par freed = ret (h1, freed @ [a])"
      apply (subst lyds_free_tree_for.simps)
      apply (simp add: fr rb_iter_next_def)
      apply (subst rb_iter_traversal.simps)
      apply simp
      apply (subst lyds_free_tree_for.simps)
      apply simp
      done
    moreover have "h1 = (\<lambda>b. if b = a \<or> b \<in> set (addrs_c c) then None else h b)"
      using Nil by (auto simp: h1_def)
    ultimately show ?thesis using Nil by auto
  next
    case (Cons f c')
    from rc1 [unfolded Cons] obtain p m t where
      par: "par = Some p" and hp: "h1 p = Some m" and rt1: "rep h1 (parent m) (Some p) t"
      and rc': "repc h1 c' (Some p) (parent m) rt"
      and ad: "set (addrs t) \<union> set (addrs_c c') = set (addrs_c (f # c'))"
      and ad2: "distinct (addrs_c (f # c')) = distinct (addrs t @ addrs_c c')"
      by (rule repc_NoneE)
    have d1: "distinct (addrs t @ addrs_c c')"
      using less.prems(2) Cons ad2 by simp
    from iter_descend [OF rt1 rc' d1, of "Some p"] obtain h2 a2 pa2 c2 rt2 where
      tr: "rb_iter_traversal h1 (Some p) (Some p) = ret (h2, Some a2, pa2)"
      and rc2: "repc h2 c2 None pa2 rt2" and al2: "h2 a2 \<noteq> None" and ni2: "a2 \<notin> set (addrs_c c2)"
      and d2: "distinct (addrs_c c2)"
      and s2: "insert a2 (set (addrs_c c2)) = set (addrs t) \<union> set (addrs_c c')"
      and f2: "\<forall>b. b \<notin> set (addrs t) \<union> set (addrs_c c') \<longrightarrow> h2 b = h1 b"
      by blast
    have sc: "set (addrs t) \<union> set (addrs_c c') = set (addrs_c c)"
      using ad Cons by simp
    have "card (insert a2 (set (addrs_c c2))) = card (set (addrs_c c))"
      using s2 sc by simp
    then have len: "length (addrs_c c2) < length (addrs_c c)"
      using ni2 d2 less.prems(2) by (simp add: distinct_card)
    from less.hyps [OF len rc2 d2 al2 ni2, of "freed @ [a]"] obtain fs where
      lp: "lyds_free_tree_for h2 (Some a2) pa2 (freed @ [a]) =
             ret (\<lambda>b. if b = a2 \<or> b \<in> set (addrs_c c2) then None else h2 b, (freed @ [a]) @ a2 # fs)"
      and dfs: "distinct fs" and sfs: "set fs = set (addrs_c c2)"
      by blast
    have "lyds_free_tree_for h (Some a) par freed =
            ret (\<lambda>b. if b = a2 \<or> b \<in> set (addrs_c c2) then None else h2 b, (freed @ [a]) @ a2 # fs)"
      by (subst lyds_free_tree_for.simps) (simp add: fr rb_iter_next_def par tr lp)
    moreover have "(\<lambda>b. if b = a2 \<or> b \<in> set (addrs_c c2) then None else h2 b) =
          (\<lambda>b. if b = a \<or> b \<in> set (addrs_c c) then None else h b)"
    proof
      fix b
      show "(if b = a2 \<or> b \<in> set (addrs_c c2) then None else h2 b) =
            (if b = a \<or> b \<in> set (addrs_c c) then None else h b)"
        using s2 sc f2 less.prems(4) by (auto simp: h1_def)
    qed
    moreover have "distinct (a2 # fs)" "set (a2 # fs) = set (addrs_c c)"
      using dfs sfs ni2 s2 sc by auto
    ultimately show ?thesis
      by (intro exI [of _ "a2 # fs"]) simp
  qed
qed

text \<open>
  Claim C8. For every tree held by the store, the empty tree included, \<open>lyds_free_tree\<close>
  returns (it ends, and it never touches a node it has freed); every node of the tree
  is handed to \<open>rb_free_node\<close> exactly once; afterwards the nodes of the tree are gone
  from the store and the rest of the store is as it was. Each node is detached from its
  parent by \<open>rb_iter_traversal\<close> before it is returned (lemma \<open>iter_descend\<close>).
\<close>

theorem lyds_free_tree_all:
  assumes "rep h None rt t" and "distinct (addrs t)"
  shows "\<exists>fs. lyds_free_tree h rt = ret (\<lambda>b. if b \<in> set (addrs t) then None else h b, fs) \<and>
           distinct fs \<and> set fs = set (addrs t)"
proof (cases rt)
  case None
  with assms(1) have "t = Leaf" by simp
  moreover have "lyds_free_tree h None = ret (h, [])"
    unfolding lyds_free_tree_def rb_iter_begin_def
    apply (subst rb_iter_traversal.simps)
    apply simp
    apply (subst lyds_free_tree_for.simps)
    apply simp
    done
  ultimately show ?thesis using None by simp
next
  case (Some x)
  have rc: "repc h [] (Some x) None rt" using Some by simp
  have d: "distinct (addrs t @ addrs_c [])" using assms(2) by simp
  from iter_descend [OF assms(1) [unfolded Some] rc d, of None] obtain h1 a pa c2 rt2 where
    tr: "rb_iter_traversal h (Some x) None = ret (h1, Some a, pa)"
    and rc2: "repc h1 c2 None pa rt2" and al: "h1 a \<noteq> None" and ni: "a \<notin> set (addrs_c c2)"
    and d2: "distinct (addrs_c c2)"
    and s2: "insert a (set (addrs_c c2)) = set (addrs t) \<union> set (addrs_c [])"
    and f2: "\<forall>b. b \<notin> set (addrs t) \<union> set (addrs_c []) \<longrightarrow> h1 b = h b"
    by blast
  from free_loop [OF rc2 d2 al ni, of "[]"] obtain fs where
    lp: "lyds_free_tree_for h1 (Some a) pa [] =
           ret (\<lambda>b. if b = a \<or> b \<in> set (addrs_c c2) then None else h1 b, [] @ a # fs)"
    and dfs: "distinct fs" and sfs: "set fs = set (addrs_c c2)"
    by blast
  have "lyds_free_tree h rt = ret (\<lambda>b. if b = a \<or> b \<in> set (addrs_c c2) then None else h1 b, a # fs)"
    unfolding lyds_free_tree_def rb_iter_begin_def Some by (simp add: tr lp)
  moreover have "(\<lambda>b. if b = a \<or> b \<in> set (addrs_c c2) then None else h1 b) =
      (\<lambda>b. if b \<in> set (addrs t) then None else h b)"
  proof
    fix b
    show "(if b = a \<or> b \<in> set (addrs_c c2) then None else h1 b) =
          (if b \<in> set (addrs t) then None else h b)"
      using s2 f2 by auto
  qed
  moreover have "distinct (a # fs)" "set (a # fs) = set (addrs t)"
    using dfs sfs ni s2 by auto
  ultimately show ?thesis
    by (intro exI [of _ "a # fs"]) simp
qed

definition h3 :: rb_heap where
  "h3 = [1 \<mapsto> \<lparr>parent = None, left = Some 2, right = Some 3, dnode = Some 11, color = RB_BLACK\<rparr>,
         2 \<mapsto> \<lparr>parent = Some 1, left = None, right = None, dnode = Some 12, color = RB_RED\<rparr>,
         3 \<mapsto> \<lparr>parent = Some 1, left = None, right = None, dnode = Some 13, color = RB_RED\<rparr>]"

definition t3 :: rbtree where
  "t3 = Node (Node Leaf 2 RB_RED (Some 12) Leaf) 1 RB_BLACK (Some 11) (Node Leaf 3 RB_RED (Some 13) Leaf)"

theorem lyds_free_tree_all_witness:
  "rep h3 None (Some 1) t3 \<and> distinct (addrs t3) \<and>
   (\<exists>fs. lyds_free_tree h3 (Some 1) = ret (\<lambda>b. if b \<in> set (addrs t3) then None else h3 b, fs) \<and>
      distinct fs \<and> set fs = set (addrs t3))"
proof -
  have r: "rep h3 None (Some 1) t3" by (simp add: h3_def t3_def)
  have d: "distinct (addrs t3)" by (simp add: t3_def)
  from lyds_free_tree_all [OF r d] r d show ?thesis by simp
qed

section \<open>Valid trees\<close>

text \<open>
  \<open>tree_at h rt t\<close>: the store \<open>h\<close> holds the tree \<open>t\<close> under the root pointer \<open>rt\<close>, with
  every parent pointer right and no cell used twice. The refinement lemmas below are all
  of one form: the tree is given as a position \<open>plug c t\<close>, the code is run on the pointers
  of the position, and the store it returns holds the tree with the position rewritten.
\<close>

definition tree_at :: "rb_heap \<Rightarrow> addr option \<Rightarrow> rbtree \<Rightarrow> bool" where
  "tree_at h rt t = (rep h None rt t \<and> distinct (addrs t))"

fun root_ptr :: "rbtree \<Rightarrow> addr option" where
  "root_ptr Leaf = None"
| "root_ptr (Node l a c d r) = Some a"

fun ctx_ptr :: "frame list \<Rightarrow> addr option" where
  "ctx_ptr [] = None"
| "ctx_ptr (LF a c d r # fs) = Some a"
| "ctx_ptr (RF l a c d # fs) = Some a"

lemma rep_ptr: "rep h par p t \<Longrightarrow> p = root_ptr t"
  by (cases t) auto

lemma repc_ptr: "repc h c p par rt \<Longrightarrow> par = ctx_ptr c"
  by (cases c rule: ctx_ptr.cases) auto

lemma tree_at_plug:
  "tree_at h rt (plug c t) =
     (repc h c (root_ptr t) (ctx_ptr c) rt \<and> rep h (ctx_ptr c) (root_ptr t) t \<and>
      distinct (addrs t @ addrs_c c))"
  unfolding tree_at_def rep_plug distinct_plug
  using rep_ptr repc_ptr by blast

lemma tree_at_node:
  assumes "tree_at h rt (plug c (Node l x col d r))"
  obtains n where "h x = Some n" and "left n = root_ptr l" and "right n = root_ptr r"
    and "parent n = ctx_ptr c" and "color n = col" and "dnode n = d"
proof -
  from assms have "rep h (ctx_ptr c) (Some x) (Node l x col d r)"
    by (simp add: tree_at_plug)
  then obtain n where "h x = Some n" "parent n = ctx_ptr c" "color n = col" "dnode n = d"
    "rep h (Some x) (left n) l" "rep h (Some x) (right n) r"
    by (auto split: option.splits)
  with that show ?thesis by (auto dest: rep_ptr)
qed

text \<open>Updating the node at the focus without touching its pointers and parent.\<close>

lemma tree_at_update:
  assumes w: "tree_at h rt (plug c (Node l x col d r))" and hx: "h x = Some n"
  shows "tree_at (h(x \<mapsto> n\<lparr>color := col'\<rparr>)) rt (plug c (Node l x col' d r))"
proof -
  let ?h = "h(x \<mapsto> n\<lparr>color := col'\<rparr>)"
  from w have rc: "repc h c (Some x) (ctx_ptr c) rt"
    and r: "rep h (ctx_ptr c) (Some x) (Node l x col d r)"
    and d: "distinct (addrs (Node l x col d r) @ addrs_c c)"
    by (simp_all add: tree_at_plug)
  have "repc ?h c (Some x) (ctx_ptr c) rt"
    using rc d by (subst repc_frame [of _ _ h]) auto
  moreover have "rep ?h (Some x) q l = rep h (Some x) q l" for q
    using d by (intro rep_frame) auto
  moreover have "rep ?h (Some x) q r = rep h (Some x) q r" for q
    using d by (intro rep_frame) auto
  ultimately show ?thesis
    using r d hx by (simp add: tree_at_plug)
qed

lemma set_COLOR_tree:
  assumes "tree_at h rt (plug c (Node l x col d r))"
  shows "\<exists>h'. set_COLOR h (Some x) col' = ret h' \<and> tree_at h' rt (plug c (Node l x col' d r))"
proof -
  from assms obtain n where hx: "h x = Some n" by (rule tree_at_node)
  from tree_at_update [OF assms hx] hx show ?thesis
    by (simp add: set_COLOR_def)
qed

lemma reads_tree:
  assumes "tree_at h rt (plug c (Node l x col d r))"
  shows "RBN_LEFT h (Some x) = ret (root_ptr l)" and "RBN_RIGHT h (Some x) = ret (root_ptr r)"
    and "RBN_PARENT h (Some x) = ret (ctx_ptr c)" and "RBN_COLOR h (Some x) = ret col"
    and "RBN_DNODE h (Some x) = ret d"
  using assms by (auto elim!: tree_at_node simp: acc_defs)

lemma repc_replace:
  assumes rc: "repc h c (Some x) par rt" and nx: "x \<notin> set (addrs_c c)" and d: "distinct (addrs_c c)"
  shows "\<exists>h' rt'. rb_replace_child h rt par (Some x) q = ret (h', rt') \<and> repc h' c q par rt' \<and>
           (\<forall>z. Some z \<noteq> par \<longrightarrow> h' z = h z)"
proof (cases c)
  case Nil
  with rc show ?thesis by (simp add: rb_replace_child_def)
next
  case (Cons f c')
  show ?thesis
  proof (cases f)
    case (LF p pc pd pr)
    from rc Cons LF obtain m where
      par: "par = Some p" and hp: "h p = Some m" and lm: "left m = Some x"
      and cm: "color m = pc" and dm: "dnode m = pd"
      and rpr: "rep h (Some p) (right m) pr" and rc': "repc h c' (Some p) (parent m) rt"
      by (auto split: option.splits)
    define h' where "h' = h(p \<mapsto> m\<lparr>left := q\<rparr>)"
    have ev: "rb_replace_child h rt par (Some x) q = ret (h', rt)"
      by (simp add: rb_replace_child_def par acc_defs hp lm h'_def)
    have "rep h' (Some p) (right m) pr"
      using rpr d Cons LF by (subst rep_frame [of _ _ h]) (auto simp: h'_def)
    moreover have "repc h' c' (Some p) (parent m) rt"
      using rc' d Cons LF by (subst repc_frame [of _ _ h]) (auto simp: h'_def)
    ultimately have "repc h' c q par rt"
      using Cons LF cm dm par by (simp add: h'_def)
    with ev par show ?thesis by (auto simp: h'_def)
  next
    case (RF pl p pc pd)
    from rc Cons RF obtain m where
      par: "par = Some p" and hp: "h p = Some m" and rm: "right m = Some x"
      and cm: "color m = pc" and dm: "dnode m = pd"
      and rpl: "rep h (Some p) (left m) pl" and rc': "repc h c' (Some p) (parent m) rt"
      by (auto split: option.splits)
    have "x \<notin> set (addrs pl)" using nx Cons RF by simp
    from rep_not_in [OF rpl this] have lm: "left m \<noteq> Some x" .
    define h' where "h' = h(p \<mapsto> m\<lparr>right := q\<rparr>)"
    have ev: "rb_replace_child h rt par (Some x) q = ret (h', rt)"
      using lm by (simp add: rb_replace_child_def par acc_defs hp rm h'_def)
    have "rep h' (Some p) (left m) pl"
      using rpl d Cons RF by (subst rep_frame [of _ _ h]) (auto simp: h'_def)
    moreover have "repc h' c' (Some p) (parent m) rt"
      using rc' d Cons RF by (subst repc_frame [of _ _ h]) (auto simp: h'_def)
    ultimately have "repc h' c q par rt"
      using Cons RF cm dm par by (simp add: h'_def)
    with ev par show ?thesis by (auto simp: h'_def)
  qed
qed

text \<open>Giving the root of a subtree a new parent pointer.\<close>

lemma rep_reparent:
  assumes "rep h par p t" and "distinct (addrs t)"
    and "\<And>a. a \<in> set (addrs t) \<Longrightarrow> Some a \<noteq> p \<Longrightarrow> h' a = h a"
    and "\<And>a n. p = Some a \<Longrightarrow> h a = Some n \<Longrightarrow> h' a = Some (n\<lparr>parent := par'\<rparr>)"
  shows "rep h' par' p t"
proof (cases t)
  case Leaf
  with assms(1) show ?thesis by simp
next
  case (Node l a c d r)
  with assms(1) obtain n where pa: "p = Some a" and ha: "h a = Some n" and
    f: "color n = c" "dnode n = d" "rep h (Some a) (left n) l" "rep h (Some a) (right n) r"
    by (auto split: option.splits)
  have "rep h' (Some a) q l = rep h (Some a) q l" for q
    using assms(2,3) Node pa by (intro rep_frame) auto
  moreover have "rep h' (Some a) q r = rep h (Some a) q r" for q
    using assms(2,3) Node pa by (intro rep_frame) auto
  ultimately show ?thesis
    using assms(4) [OF pa ha] f Node pa by simp
qed

lemma rotate_left_alt:
  "rb_rotate_left h rbt rbn =
     obind (RBN_RIGHT h rbn) (\<lambda>tmp.
     obind (RBN_LEFT h tmp) (\<lambda>tl.
     obind (set_RIGHT h rbn tl) (\<lambda>h.
     obind (if tl \<noteq> None then set_PARENT h tl rbn else ret h) (\<lambda>h.
     obind (RBN_PARENT h rbn) (\<lambda>par.
     obind (set_PARENT h tmp par) (\<lambda>h.
     obind (rb_replace_child h rbt par rbn tmp) (\<lambda>(h, rbt).
     obind (set_LEFT h tmp rbn) (\<lambda>h.
     obind (set_PARENT h rbn tmp) (\<lambda>h.
     ret (h, rbt))))))))))"
  unfolding rb_rotate_left_def rb_replace_child_def
  by (simp add: eq_commute [of rbn] cong: if_cong)

subsection \<open>The rotations\<close>

lemma ctx_ptr_in: "ctx_ptr c = Some p \<Longrightarrow> p \<in> set (addrs_c c)"
  by (cases c rule: ctx_ptr.cases) auto

lemma rb_rotate_left_tree:
  assumes w: "tree_at h rt (plug c (Node a x cx dx (Node b y cy dy g)))"
  shows "\<exists>h' rt'. rb_rotate_left h rt (Some x) = ret (h', rt') \<and>
           tree_at h' rt' (plug c (Node (Node a x cx dx b) y cy dy g))"
proof -
  define par where "par = ctx_ptr c"
  from w have rc: "repc h c (Some x) par rt"
    and r: "rep h par (Some x) (Node a x cx dx (Node b y cy dy g))"
    and d: "distinct (addrs (Node a x cx dx (Node b y cy dy g)) @ addrs_c c)"
    by (simp_all add: tree_at_plug par_def)
  from r obtain nx ny where
    hx: "h x = Some nx" and px: "parent nx = par" and cx: "color nx = cx" and dx: "dnode nx = dx"
    and ra: "rep h (Some x) (left nx) a" and rx: "right nx = Some y"
    and hy: "h y = Some ny" and py: "parent ny = Some x" and cy: "color ny = cy" and dy: "dnode ny = dy"
    and rb: "rep h (Some y) (left ny) b" and rg: "rep h (Some y) (right ny) g"
    by (auto split: option.splits)
  have xy: "x \<noteq> y" using d by auto
  have pnot: "par \<noteq> Some x" "par \<noteq> Some y" "\<And>z. z \<in> set (addrs a) \<union> set (addrs b) \<union> set (addrs g) \<Longrightarrow> par \<noteq> Some z"
    using d ctx_ptr_in [of c] by (auto simp: par_def)
  define h1 where "h1 = h(x \<mapsto> nx\<lparr>right := left ny\<rparr>)"
  define h2 where "h2 = (case left ny of None \<Rightarrow> h1
      | Some bz \<Rightarrow> (case h1 bz of None \<Rightarrow> h1 | Some nb \<Rightarrow> h1(bz \<mapsto> nb\<lparr>parent := Some x\<rparr>)))"
  define h3 where "h3 = h2(y \<mapsto> ny\<lparr>parent := par\<rparr>)"
  have bz: "left ny = Some bz \<Longrightarrow> bz \<in> set (addrs b) \<and> h bz \<noteq> None" for bz
    using rb rep_root [of h "Some y" bz b] rep_alloc [of h "Some y" "left ny" b bz] by auto
  have bz': "z \<in> set (addrs b)" if "Some z = left ny" for z
    using bz [OF that [symmetric]] by simp
  have s2: "(if left ny \<noteq> None then set_PARENT h1 (left ny) (Some x) else ret h1) = ret h2"
    using bz d by (cases "left ny") (auto simp: h2_def h1_def set_PARENT_def split: option.splits)
  have h2x: "h2 x = Some (nx\<lparr>right := left ny\<rparr>)" and h2y: "h2 y = Some ny"
    using bz d xy hy by (auto simp: h2_def h1_def split: option.splits)
  have f3: "h3 z = h z" if "z \<noteq> x" "z \<noteq> y" "Some z \<noteq> left ny" for z
    using that by (auto simp: h3_def h2_def h1_def split: option.splits)
  have rc3: "repc h3 c (Some x) par rt"
    using rc d bz' by (subst repc_frame [of _ _ h]) (auto intro!: f3)
  have "x \<notin> set (addrs_c c)" "distinct (addrs_c c)" using d by auto
  from repc_replace [OF rc3 this, where q = "Some y"] obtain h4 rt' where
    rp: "rb_replace_child h3 rt par (Some x) (Some y) = ret (h4, rt')"
    and rc4: "repc h4 c (Some y) par rt'" and f4: "\<forall>z. Some z \<noteq> par \<longrightarrow> h4 z = h3 z"
    by blast
  have h4x: "h4 x = Some (nx\<lparr>right := left ny\<rparr>)" and h4y: "h4 y = Some (ny\<lparr>parent := par\<rparr>)"
    using f4 pnot h2x h2y xy by (auto simp: h3_def)
  define h5 where "h5 = h4(y \<mapsto> ny\<lparr>parent := par, left := Some x\<rparr>)"
  define h6 where "h6 = h5(x \<mapsto> nx\<lparr>right := left ny, parent := Some y\<rparr>)"
  have e1: "RBN_RIGHT h (Some x) = ret (Some y)" and e2: "RBN_LEFT h (Some y) = ret (left ny)"
    and e3: "set_RIGHT h (Some x) (left ny) = ret h1"
    and e5: "RBN_PARENT h2 (Some x) = ret par" and e6: "set_PARENT h2 (Some y) par = ret h3"
    and e8: "set_LEFT h4 (Some y) (Some x) = ret h5" and e9: "set_PARENT h5 (Some x) (Some y) = ret h6"
    using xy by (simp_all add: acc_defs hx rx hy h1_def h2x h2y h3_def h4x h4y h5_def h6_def px)
  have ev: "rb_rotate_left h rt (Some x) = ret (h6, rt')"
    by (simp only: rotate_left_alt e1 e2 e3 s2 e5 e6 rp e8 e9 obind_ret prod.case)
  have f6: "h6 z = h z" if "z \<noteq> x" "z \<noteq> y" "Some z \<noteq> left ny" "Some z \<noteq> par" for z
    using that f4 f3 by (simp add: h6_def h5_def)
  have "repc h6 c (Some y) par rt'"
    using rc4 d by (subst repc_frame [of _ _ h4]) (auto simp: h6_def h5_def)
  moreover have "rep h6 (Some x) (left nx) a"
    using ra d pnot bz' by (subst rep_frame [of _ _ h]) (auto intro!: f6)
  moreover have "rep h6 (Some y) (right ny) g"
    using rg d pnot bz' by (subst rep_frame [of _ _ h]) (auto intro!: f6)
  moreover have "rep h6 (Some x) (left ny) b"
  proof (rule rep_reparent [OF rb])
    show "distinct (addrs b)" using d by simp
    show "h6 z = h z" if "z \<in> set (addrs b)" "Some z \<noteq> left ny" for z
      using that d pnot by (intro f6) auto
    show "h6 z = Some (n\<lparr>parent := Some x\<rparr>)" if "left ny = Some z" "h z = Some n" for z n
    proof -
      from bz [OF that(1)] have zb: "z \<in> set (addrs b)" by simp
      then have "z \<noteq> x" "z \<noteq> y" "Some z \<noteq> par" using d pnot by auto
      then show ?thesis
        using that f4 by (simp add: h6_def h5_def h3_def h2_def h1_def)
    qed
  qed
  ultimately have "tree_at h6 rt' (plug c (Node (Node a x cx dx b) y cy dy g))"
    using d xy cx dx cy dy by (simp add: tree_at_plug par_def h6_def h5_def)
  with ev show ?thesis by blast
qed

lemma rotate_right_alt:
  "rb_rotate_right h rbt rbn =
     obind (RBN_LEFT h rbn) (\<lambda>tmp.
     obind (RBN_RIGHT h tmp) (\<lambda>tl.
     obind (set_LEFT h rbn tl) (\<lambda>h.
     obind (if tl \<noteq> None then set_PARENT h tl rbn else ret h) (\<lambda>h.
     obind (RBN_PARENT h rbn) (\<lambda>par.
     obind (set_PARENT h tmp par) (\<lambda>h.
     obind (rb_replace_child h rbt par rbn tmp) (\<lambda>(h, rbt).
     obind (set_RIGHT h tmp rbn) (\<lambda>h.
     obind (set_PARENT h rbn tmp) (\<lambda>h.
     ret (h, rbt))))))))))"
  unfolding rb_rotate_right_def rb_replace_child_def
  by (simp add: eq_commute [of rbn] cong: if_cong)

lemma rb_rotate_right_tree:
  assumes w: "tree_at h rt (plug c (Node (Node g y cy dy b) x cx dx a))"
  shows "\<exists>h' rt'. rb_rotate_right h rt (Some x) = ret (h', rt') \<and>
           tree_at h' rt' (plug c (Node g y cy dy (Node b x cx dx a)))"
proof -
  define par where "par = ctx_ptr c"
  from w have rc: "repc h c (Some x) par rt"
    and r: "rep h par (Some x) (Node (Node g y cy dy b) x cx dx a)"
    and d: "distinct (addrs (Node (Node g y cy dy b) x cx dx a) @ addrs_c c)"
    by (simp_all add: tree_at_plug par_def)
  from r obtain nx ny where
    hx: "h x = Some nx" and px: "parent nx = par" and cx: "color nx = cx" and dx: "dnode nx = dx"
    and ra: "rep h (Some x) (right nx) a" and rx: "left nx = Some y"
    and hy: "h y = Some ny" and py: "parent ny = Some x" and cy: "color ny = cy" and dy: "dnode ny = dy"
    and rb: "rep h (Some y) (right ny) b" and rg: "rep h (Some y) (left ny) g"
    by (auto split: option.splits)
  have xy: "x \<noteq> y" using d by auto
  have pnot: "par \<noteq> Some x" "par \<noteq> Some y" "\<And>z. z \<in> set (addrs a) \<union> set (addrs b) \<union> set (addrs g) \<Longrightarrow> par \<noteq> Some z"
    using d ctx_ptr_in [of c] by (auto simp: par_def)
  define h1 where "h1 = h(x \<mapsto> nx\<lparr>left := right ny\<rparr>)"
  define h2 where "h2 = (case right ny of None \<Rightarrow> h1
      | Some bz \<Rightarrow> (case h1 bz of None \<Rightarrow> h1 | Some nb \<Rightarrow> h1(bz \<mapsto> nb\<lparr>parent := Some x\<rparr>)))"
  define h3 where "h3 = h2(y \<mapsto> ny\<lparr>parent := par\<rparr>)"
  have bz: "right ny = Some bz \<Longrightarrow> bz \<in> set (addrs b) \<and> h bz \<noteq> None" for bz
    using rb rep_root [of h "Some y" bz b] rep_alloc [of h "Some y" "right ny" b bz] by auto
  have bz': "z \<in> set (addrs b)" if "Some z = right ny" for z
    using bz [OF that [symmetric]] by simp
  have s2: "(if right ny \<noteq> None then set_PARENT h1 (right ny) (Some x) else ret h1) = ret h2"
    using bz d by (cases "right ny") (auto simp: h2_def h1_def set_PARENT_def split: option.splits)
  have h2x: "h2 x = Some (nx\<lparr>left := right ny\<rparr>)" and h2y: "h2 y = Some ny"
    using bz d xy hy by (auto simp: h2_def h1_def split: option.splits)
  have f3: "h3 z = h z" if "z \<noteq> x" "z \<noteq> y" "Some z \<noteq> right ny" for z
    using that by (auto simp: h3_def h2_def h1_def split: option.splits)
  have rc3: "repc h3 c (Some x) par rt"
    using rc d bz' by (subst repc_frame [of _ _ h]) (auto intro!: f3)
  have "x \<notin> set (addrs_c c)" "distinct (addrs_c c)" using d by auto
  from repc_replace [OF rc3 this, where q = "Some y"] obtain h4 rt' where
    rp: "rb_replace_child h3 rt par (Some x) (Some y) = ret (h4, rt')"
    and rc4: "repc h4 c (Some y) par rt'" and f4: "\<forall>z. Some z \<noteq> par \<longrightarrow> h4 z = h3 z"
    by blast
  have h4x: "h4 x = Some (nx\<lparr>left := right ny\<rparr>)" and h4y: "h4 y = Some (ny\<lparr>parent := par\<rparr>)"
    using f4 pnot h2x h2y xy by (auto simp: h3_def)
  define h5 where "h5 = h4(y \<mapsto> ny\<lparr>parent := par, right := Some x\<rparr>)"
  define h6 where "h6 = h5(x \<mapsto> nx\<lparr>left := right ny, parent := Some y\<rparr>)"
  have e1: "RBN_LEFT h (Some x) = ret (Some y)" and e2: "RBN_RIGHT h (Some y) = ret (right ny)"
    and e3: "set_LEFT h (Some x) (right ny) = ret h1"
    and e5: "RBN_PARENT h2 (Some x) = ret par" and e6: "set_PARENT h2 (Some y) par = ret h3"
    and e8: "set_RIGHT h4 (Some y) (Some x) = ret h5" and e9: "set_PARENT h5 (Some x) (Some y) = ret h6"
    using xy by (simp_all add: acc_defs hx rx hy h1_def h2x h2y h3_def h4x h4y h5_def h6_def px)
  have ev: "rb_rotate_right h rt (Some x) = ret (h6, rt')"
    by (simp only: rotate_right_alt e1 e2 e3 s2 e5 e6 rp e8 e9 obind_ret prod.case)
  have f6: "h6 z = h z" if "z \<noteq> x" "z \<noteq> y" "Some z \<noteq> right ny" "Some z \<noteq> par" for z
    using that f4 f3 by (simp add: h6_def h5_def)
  have "repc h6 c (Some y) par rt'"
    using rc4 d by (subst repc_frame [of _ _ h4]) (auto simp: h6_def h5_def)
  moreover have "rep h6 (Some x) (right nx) a"
    using ra d pnot bz' by (subst rep_frame [of _ _ h]) (auto intro!: f6)
  moreover have "rep h6 (Some y) (left ny) g"
    using rg d pnot bz' by (subst rep_frame [of _ _ h]) (auto intro!: f6)
  moreover have "rep h6 (Some x) (right ny) b"
  proof (rule rep_reparent [OF rb])
    show "distinct (addrs b)" using d by simp
    show "h6 z = h z" if "z \<in> set (addrs b)" "Some z \<noteq> right ny" for z
      using that d pnot by (intro f6) auto
    show "h6 z = Some (n\<lparr>parent := Some x\<rparr>)" if "right ny = Some z" "h z = Some n" for z n
    proof -
      from bz [OF that(1)] have zb: "z \<in> set (addrs b)" by simp
      then have "z \<noteq> x" "z \<noteq> y" "Some z \<noteq> par" using d pnot by auto
      then show ?thesis
        using that f4 by (simp add: h6_def h5_def h3_def h2_def h1_def)
    qed
  qed
  ultimately have "tree_at h6 rt' (plug c (Node g y cy dy (Node b x cx dx a)))"
    using d xy cx dx cy dy by (simp add: tree_at_plug par_def h6_def h5_def)
  with ev show ?thesis by blast
qed

section \<open>The red-black invariants\<close>

text \<open>
  \<open>invc\<close>: no red node has a red child. \<open>invh\<close>: at every node the two subtrees have the
  same black height, that is every path from the root to an empty position passes through
  the same number of black nodes. \<open>rbt_inv\<close> adds that the root is black. \<open>cinv c n\<close> is
  what the two say about a path \<open>c\<close> around a position whose subtree has black
  height \<open>n\<close>.
\<close>

fun color_of :: "rbtree \<Rightarrow> color" where
  "color_of Leaf = RB_BLACK"
| "color_of (Node l a c d r) = c"

fun bheight :: "rbtree \<Rightarrow> nat" where
  "bheight Leaf = 0"
| "bheight (Node l a c d r) = bheight l + (if c = RB_BLACK then 1 else 0)"

fun invc :: "rbtree \<Rightarrow> bool" where
  "invc Leaf = True"
| "invc (Node l a c d r) =
     (invc l \<and> invc r \<and> (c = RB_RED \<longrightarrow> color_of l = RB_BLACK \<and> color_of r = RB_BLACK))"

fun invh :: "rbtree \<Rightarrow> bool" where
  "invh Leaf = True"
| "invh (Node l a c d r) = (invh l \<and> invh r \<and> bheight l = bheight r)"

definition rbt_inv :: "rbtree \<Rightarrow> bool" where
  "rbt_inv t = (color_of t = RB_BLACK \<and> invc t \<and> invh t)"

fun elems :: "rbtree \<Rightarrow> (addr \<times> addr option) list" where
  "elems Leaf = []"
| "elems (Node l a c d r) = elems l @ (a, d) # elems r"

fun paint :: "color \<Rightarrow> rbtree \<Rightarrow> rbtree" where
  "paint c Leaf = Leaf"
| "paint c (Node l a c' d r) = Node l a c d r"

fun fcolor :: "frame \<Rightarrow> color" where
  "fcolor (LF a c d r) = c"
| "fcolor (RF l a c d) = c"

fun ctx_color :: "frame list \<Rightarrow> color" where
  "ctx_color [] = RB_BLACK"
| "ctx_color (f # fs) = fcolor f"

fun cinv :: "frame list \<Rightarrow> nat \<Rightarrow> bool" where
  "cinv [] n = True"
| "cinv (LF a c d r # fs) n =
     (invc r \<and> invh r \<and> bheight r = n \<and>
      (c = RB_RED \<longrightarrow> color_of r = RB_BLACK \<and> ctx_color fs = RB_BLACK) \<and>
      cinv fs (n + (if c = RB_BLACK then 1 else 0)))"
| "cinv (RF l a c d # fs) n =
     (invc l \<and> invh l \<and> bheight l = n \<and>
      (c = RB_RED \<longrightarrow> color_of l = RB_BLACK \<and> ctx_color fs = RB_BLACK) \<and>
      cinv fs (n + (if c = RB_BLACK then 1 else 0)))"

lemma color_cases [simp]: "(c \<noteq> RB_RED) = (c = RB_BLACK)" "(c \<noteq> RB_BLACK) = (c = RB_RED)"
  by (cases c; simp)+

lemma addrs_elems: "addrs t = map fst (elems t)"
  by (induction t) auto

lemma inv_plug:
  "(invc (plug c t) \<and> invh (plug c t)) =
     (invc t \<and> invh t \<and> cinv c (bheight t) \<and> (ctx_color c = RB_RED \<longrightarrow> color_of t = RB_BLACK))"
proof (induction c arbitrary: t)
  case Nil
  then show ?case by simp
next
  case (Cons f c)
  show ?case
    by (cases f) (auto simp: Cons.IH)
qed

lemma color_plug: "color_of (plug c t) = (if c = [] then color_of t else fcolor (last c))"
proof (induction c arbitrary: t)
  case Nil
  then show ?case by simp
next
  case (Cons f c)
  show ?case by (cases f) (auto simp: Cons.IH)
qed

lemma elems_plug_cong: "elems t = elems t' \<Longrightarrow> elems (plug c t) = elems (plug c t')"
proof (induction c arbitrary: t t')
  case Nil
  then show ?case by simp
next
  case (Cons f c)
  show ?case by (cases f) (auto intro!: Cons.IH simp: Cons.prems)
qed

text \<open>What one pass through the body of the loop of \<open>rb_insert_color\<close> does to the
  position of \<open>rbn\<close>: the path \<open>c\<close> (parent first, then grandparent) and the subtree \<open>t\<close>
  at \<open>rbn\<close>.\<close>

fun ins_body :: "frame list \<Rightarrow> rbtree \<Rightarrow> (frame list \<times> rbtree) option" where
  "ins_body (LF p pc pd pr # LF g gc gd u # cg) t =
     (if color_of u = RB_RED
      then Some (cg, Node (Node t p RB_BLACK pd pr) g RB_RED gd (paint RB_BLACK u))
      else Some (LF p RB_BLACK pd (Node pr g RB_RED gd u) # cg, t))"
| "ins_body (RF pl p pc pd # LF g gc gd u # cg) t =
     (if color_of u = RB_RED
      then Some (cg, Node (Node pl p RB_BLACK pd t) g RB_RED gd (paint RB_BLACK u))
      else (case t of Leaf \<Rightarrow> None
            | Node xl x xc xd xr \<Rightarrow>
                Some (LF x RB_BLACK xd (Node xr g RB_RED gd u) # cg, Node pl p pc pd xl)))"
| "ins_body (RF pl p pc pd # RF u g gc gd # cg) t =
     (if color_of u = RB_RED
      then Some (cg, Node (paint RB_BLACK u) g RB_RED gd (Node pl p RB_BLACK pd t))
      else Some (RF (Node u g RB_RED gd pl) p RB_BLACK pd # cg, t))"
| "ins_body (LF p pc pd pr # RF u g gc gd # cg) t =
     (if color_of u = RB_RED
      then Some (cg, Node (paint RB_BLACK u) g RB_RED gd (Node t p RB_BLACK pd pr))
      else (case t of Leaf \<Rightarrow> None
            | Node xl x xc xd xr \<Rightarrow>
                Some (RF (Node u g RB_RED gd xl) x RB_BLACK xd # cg, Node xr p pc pd pr)))"
| "ins_body [f] t = None"
| "ins_body [] t = None"

definition ins_inv :: "frame list \<Rightarrow> rbtree \<Rightarrow> bool" where
  "ins_inv c t = (color_of t = RB_RED \<and> invc t \<and> invh t \<and> cinv c (bheight t) \<and>
                  (c \<noteq> [] \<longrightarrow> fcolor (last c) = RB_BLACK))"

lemma paint_black_red:
  "color_of u = RB_RED \<Longrightarrow> invc u \<Longrightarrow> invc (paint RB_BLACK u)"
  "color_of u = RB_RED \<Longrightarrow> invh u \<Longrightarrow> invh (paint RB_BLACK u)"
  "color_of u = RB_RED \<Longrightarrow> bheight (paint RB_BLACK u) = Suc (bheight u)"
  "color_of u = RB_RED \<Longrightarrow> color_of (paint RB_BLACK u) = RB_BLACK"
  "elems (paint c u) = elems u"
  by (cases u; simp)+

lemma ins_body_inv:
  assumes "ins_inv c t" and "ctx_color c = RB_RED"
  shows "\<exists>c' t'. ins_body c t = Some (c', t') \<and> ins_inv c' t' \<and> length c' < length c \<and>
           elems (plug c' t') = elems (plug c t)"
proof (cases "(c, t)" rule: ins_body.cases)
  case (1 p pc pd pr g gc gd u cg t0)
  with assms show ?thesis
    by (auto simp: ins_inv_def paint_black_red intro!: elems_plug_cong)
next
  case (2 pl p pc pd g gc gd u cg t0)
  with assms show ?thesis
    by (cases t0) (auto simp: ins_inv_def paint_black_red intro!: elems_plug_cong)
next
  case (3 pl p pc pd u g gc gd cg t0)
  with assms show ?thesis
    by (auto simp: ins_inv_def paint_black_red intro!: elems_plug_cong)
next
  case (4 p pc pd pr u g gc gd cg t0)
  with assms show ?thesis
    by (cases t0) (auto simp: ins_inv_def paint_black_red intro!: elems_plug_cong)
next
  case (5 f t0)
  with assms show ?thesis
    by (cases f) (auto simp: ins_inv_def)
next
  case (6 t0)
  with assms show ?thesis by simp
qed

section \<open>\<open>rb_insert_color\<close> restores the invariants\<close>

lemma root_ptr_in: "root_ptr t = Some x \<Longrightarrow> x \<in> set (addrs t)"
  by (cases t) auto

lemma is_red_tree:
  assumes "tree_at h rt (plug c u)"
  shows "is_red h (root_ptr u) = ret (color_of u = RB_RED)"
proof (cases u)
  case Leaf
  then show ?thesis by (simp add: is_red_def)
next
  case (Node l a col d r)
  with reads_tree(4) [of h rt c l a col d r] assms show ?thesis
    by (simp add: is_red_def)
qed

lemma null_or_black_tree:
  assumes "tree_at h rt (plug c u)"
  shows "null_or_black h (root_ptr u) = ret (color_of u = RB_BLACK)"
proof (cases u)
  case Leaf
  then show ?thesis by (simp add: null_or_black_def)
next
  case (Node l a col d r)
  with reads_tree(4) [of h rt c l a col d r] assms show ?thesis
    by (simp add: null_or_black_def)
qed

lemma is_red_ctx:
  assumes "tree_at h rt (plug c t)"
  shows "is_red h (ctx_ptr c) = ret (ctx_color c = RB_RED)"
proof (cases c)
  case Nil
  then show ?thesis by (simp add: is_red_def)
next
  case (Cons f c')
  show ?thesis
  proof (cases f)
    case (LF a col d r)
    with is_red_tree [of h rt c' "Node t a col d r"] assms Cons show ?thesis by simp
  next
    case (RF l a col d)
    with is_red_tree [of h rt c' "Node l a col d t"] assms Cons show ?thesis by simp
  qed
qed

lemma set_COLOR_root:
  assumes "tree_at h rt (plug c u)" and "u \<noteq> Leaf"
  shows "\<exists>h'. set_COLOR h (root_ptr u) col = ret h' \<and> tree_at h' rt (plug c (paint col u))"
  using assms set_COLOR_tree [of h rt c _ _ _ _ _ col] by (cases u) auto

lemma ins_body_ref_LL:
  assumes w: "tree_at h rt (plug (LF p pc pd pr # LF g gc gd u # cg) t)" and t: "t \<noteq> Leaf"
    and b: "ins_body (LF p pc pd pr # LF g gc gd u # cg) t = Some (c', t')"
  shows "\<exists>h' rt'. rb_insert_color_body h rt (Some p) (root_ptr t) = ret (h', rt', root_ptr t') \<and>
           tree_at h' rt' (plug c' t')"
proof -
  have e1: "RBN_PARENT h (Some p) = ret (Some g)" and e5: "RBN_RIGHT h (Some p) = ret (root_ptr pr)"
    using reads_tree(2,3) [of h rt "LF g gc gd u # cg" t p pc pd pr] w by simp_all
  have e2: "RBN_LEFT h (Some g) = ret (Some p)" and e3: "RBN_RIGHT h (Some g) = ret (root_ptr u)"
    using reads_tree(1,2) [of h rt cg "Node t p pc pd pr" g gc gd u] w by simp_all
  have e4: "is_red h (root_ptr u) = ret (color_of u = RB_RED)"
    using is_red_tree [of h rt "RF (Node t p pc pd pr) g gc gd # cg" u] w by simp
  show ?thesis
  proof (cases "color_of u = RB_RED")
    case True
    then have u: "u \<noteq> Leaf" by auto
    from set_COLOR_root [of h rt "RF (Node t p pc pd pr) g gc gd # cg" u RB_BLACK] w u obtain h1 where
      s1: "set_COLOR h (root_ptr u) RB_BLACK = ret h1"
      and w1: "tree_at h1 rt (plug cg (Node (Node t p pc pd pr) g gc gd (paint RB_BLACK u)))"
      by auto
    from set_COLOR_tree [of h1 rt "LF g gc gd (paint RB_BLACK u) # cg" t p pc pd pr RB_BLACK] w1 obtain h2 where
      s2: "set_COLOR h1 (Some p) RB_BLACK = ret h2"
      and w2: "tree_at h2 rt (plug cg (Node (Node t p RB_BLACK pd pr) g gc gd (paint RB_BLACK u)))"
      by auto
    from set_COLOR_tree [of h2 rt cg "Node t p RB_BLACK pd pr" g gc gd "paint RB_BLACK u" RB_RED] w2 obtain h3 where
      s3: "set_COLOR h2 (Some g) RB_RED = ret h3"
      and w3: "tree_at h3 rt (plug cg (Node (Node t p RB_BLACK pd pr) g RB_RED gd (paint RB_BLACK u)))"
      by auto
    have "rb_insert_color_body h rt (Some p) (root_ptr t) = ret (h3, rt, Some g)"
      by (simp add: rb_insert_color_body_def rb_set_blackred_def e1 e2 e3 e4 True s1 s2 s3)
    with w3 b True show ?thesis by auto
  next
    case False
    have ne: "root_ptr pr \<noteq> root_ptr t"
      using w t by (cases t) (auto simp: tree_at_def distinct_plug dest: root_ptr_in)
    from set_COLOR_tree [of h rt "LF g gc gd u # cg" t p pc pd pr RB_BLACK] w obtain h2 where
      s2: "set_COLOR h (Some p) RB_BLACK = ret h2"
      and w2: "tree_at h2 rt (plug cg (Node (Node t p RB_BLACK pd pr) g gc gd u))"
      by auto
    from set_COLOR_tree [of h2 rt cg "Node t p RB_BLACK pd pr" g gc gd u RB_RED] w2 obtain h3 where
      s3: "set_COLOR h2 (Some g) RB_RED = ret h3"
      and w3: "tree_at h3 rt (plug cg (Node (Node t p RB_BLACK pd pr) g RB_RED gd u))"
      by auto
    from rb_rotate_right_tree [where h = h3 and rt = rt and c = cg and g = t and y = p and cy = RB_BLACK and dy = pd and b = pr and x = g and cx = RB_RED and dx = gd and a = u] w3 obtain h4 rt4 where
      s4: "rb_rotate_right h3 rt (Some g) = ret (h4, rt4)"
      and w4: "tree_at h4 rt4 (plug cg (Node t p RB_BLACK pd (Node pr g RB_RED gd u)))"
      by auto
    have "rb_insert_color_body h rt (Some p) (root_ptr t) = ret (h4, rt4, root_ptr t)"
      by (simp add: rb_insert_color_body_def rb_set_blackred_def e1 e2 e3 e4 e5 ne False s2 s3 s4)
    with w4 b False show ?thesis by auto
  qed
qed

lemma ins_body_ref_RL:
  assumes w: "tree_at h rt (plug (RF pl p pc pd # LF g gc gd u # cg) t)" and t: "t \<noteq> Leaf"
    and b: "ins_body (RF pl p pc pd # LF g gc gd u # cg) t = Some (c', t')"
  shows "\<exists>h' rt'. rb_insert_color_body h rt (Some p) (root_ptr t) = ret (h', rt', root_ptr t') \<and>
           tree_at h' rt' (plug c' t')"
proof -
  have e1: "RBN_PARENT h (Some p) = ret (Some g)" and e5: "RBN_RIGHT h (Some p) = ret (root_ptr t)"
    using reads_tree(2,3) [of h rt "LF g gc gd u # cg" pl p pc pd t] w by simp_all
  have e2: "RBN_LEFT h (Some g) = ret (Some p)" and e3: "RBN_RIGHT h (Some g) = ret (root_ptr u)"
    using reads_tree(1,2) [of h rt cg "Node pl p pc pd t" g gc gd u] w by simp_all
  have e4: "is_red h (root_ptr u) = ret (color_of u = RB_RED)"
    using is_red_tree [of h rt "RF (Node pl p pc pd t) g gc gd # cg" u] w by simp
  show ?thesis
  proof (cases "color_of u = RB_RED")
    case True
    then have u: "u \<noteq> Leaf" by auto
    from set_COLOR_root [of h rt "RF (Node pl p pc pd t) g gc gd # cg" u RB_BLACK] w u obtain h1 where
      s1: "set_COLOR h (root_ptr u) RB_BLACK = ret h1"
      and w1: "tree_at h1 rt (plug cg (Node (Node pl p pc pd t) g gc gd (paint RB_BLACK u)))"
      by auto
    from set_COLOR_tree [of h1 rt "LF g gc gd (paint RB_BLACK u) # cg" pl p pc pd t RB_BLACK] w1 obtain h2 where
      s2: "set_COLOR h1 (Some p) RB_BLACK = ret h2"
      and w2: "tree_at h2 rt (plug cg (Node (Node pl p RB_BLACK pd t) g gc gd (paint RB_BLACK u)))"
      by auto
    from set_COLOR_tree [of h2 rt cg "Node pl p RB_BLACK pd t" g gc gd "paint RB_BLACK u" RB_RED] w2 obtain h3 where
      s3: "set_COLOR h2 (Some g) RB_RED = ret h3"
      and w3: "tree_at h3 rt (plug cg (Node (Node pl p RB_BLACK pd t) g RB_RED gd (paint RB_BLACK u)))"
      by auto
    have "rb_insert_color_body h rt (Some p) (root_ptr t) = ret (h3, rt, Some g)"
      by (simp add: rb_insert_color_body_def rb_set_blackred_def e1 e2 e3 e4 True s1 s2 s3)
    with w3 b True show ?thesis by auto
  next
    case False
    from t obtain xl x xc xd xr where tn: "t = Node xl x xc xd xr" by (cases t) auto
    from rb_rotate_left_tree [of h rt "LF g gc gd u # cg" pl p pc pd xl x xc xd xr] w tn obtain h1 rt1 where
      s1: "rb_rotate_left h rt (Some p) = ret (h1, rt1)"
      and w1: "tree_at h1 rt1 (plug cg (Node (Node (Node pl p pc pd xl) x xc xd xr) g gc gd u))"
      by auto
    from set_COLOR_tree [of h1 rt1 "LF g gc gd u # cg" "Node pl p pc pd xl" x xc xd xr RB_BLACK] w1 obtain h2 where
      s2: "set_COLOR h1 (Some x) RB_BLACK = ret h2"
      and w2: "tree_at h2 rt1 (plug cg (Node (Node (Node pl p pc pd xl) x RB_BLACK xd xr) g gc gd u))"
      by auto
    from set_COLOR_tree [of h2 rt1 cg "Node (Node pl p pc pd xl) x RB_BLACK xd xr" g gc gd u RB_RED] w2 obtain h3 where
      s3: "set_COLOR h2 (Some g) RB_RED = ret h3"
      and w3: "tree_at h3 rt1 (plug cg (Node (Node (Node pl p pc pd xl) x RB_BLACK xd xr) g RB_RED gd u))"
      by auto
    from rb_rotate_right_tree [where h = h3 and rt = rt1 and c = cg and g = "Node pl p pc pd xl" and y = x and cy = RB_BLACK and dy = xd and b = xr and x = g and cx = RB_RED and dx = gd and a = u] w3 obtain h4 rt4 where
      s4: "rb_rotate_right h3 rt1 (Some g) = ret (h4, rt4)"
      and w4: "tree_at h4 rt4 (plug cg (Node (Node pl p pc pd xl) x RB_BLACK xd (Node xr g RB_RED gd u)))"
      by auto
    have "rb_insert_color_body h rt (Some p) (root_ptr t) = ret (h4, rt4, Some p)"
      using e5 by (simp add: rb_insert_color_body_def rb_set_blackred_def e1 e2 e3 e4 tn False s1 s2 s3 s4)
    with w4 b False tn show ?thesis by auto
  qed
qed

lemma ins_body_ref_RR:
  assumes w: "tree_at h rt (plug (RF pl p pc pd # RF u g gc gd # cg) t)" and t: "t \<noteq> Leaf"
    and b: "ins_body (RF pl p pc pd # RF u g gc gd # cg) t = Some (c', t')"
  shows "\<exists>h' rt'. rb_insert_color_body h rt (Some p) (root_ptr t) = ret (h', rt', root_ptr t') \<and>
           tree_at h' rt' (plug c' t')"
proof -
  have e1: "RBN_PARENT h (Some p) = ret (Some g)" and e5: "RBN_LEFT h (Some p) = ret (root_ptr pl)"
    using reads_tree(1,3) [of h rt "RF u g gc gd # cg" pl p pc pd t] w by simp_all
  have e2: "RBN_LEFT h (Some g) = ret (root_ptr u)" and e3: "RBN_RIGHT h (Some g) = ret (Some p)"
    using reads_tree(1,2) [of h rt cg u g gc gd "Node pl p pc pd t"] w by simp_all
  have e4: "is_red h (root_ptr u) = ret (color_of u = RB_RED)"
    using is_red_tree [of h rt "LF g gc gd (Node pl p pc pd t) # cg" u] w by simp
  have ne2: "Some p \<noteq> root_ptr u"
    using w by (auto simp: tree_at_def distinct_plug dest: root_ptr_in [OF sym])
  show ?thesis
  proof (cases "color_of u = RB_RED")
    case True
    then have u: "u \<noteq> Leaf" by auto
    from set_COLOR_root [of h rt "LF g gc gd (Node pl p pc pd t) # cg" u RB_BLACK] w u obtain h1 where
      s1: "set_COLOR h (root_ptr u) RB_BLACK = ret h1"
      and w1: "tree_at h1 rt (plug cg (Node (paint RB_BLACK u) g gc gd (Node pl p pc pd t)))"
      by auto
    from set_COLOR_tree [of h1 rt "RF (paint RB_BLACK u) g gc gd # cg" pl p pc pd t RB_BLACK] w1 obtain h2 where
      s2: "set_COLOR h1 (Some p) RB_BLACK = ret h2"
      and w2: "tree_at h2 rt (plug cg (Node (paint RB_BLACK u) g gc gd (Node pl p RB_BLACK pd t)))"
      by auto
    from set_COLOR_tree [of h2 rt cg "paint RB_BLACK u" g gc gd "Node pl p RB_BLACK pd t" RB_RED] w2 obtain h3 where
      s3: "set_COLOR h2 (Some g) RB_RED = ret h3"
      and w3: "tree_at h3 rt (plug cg (Node (paint RB_BLACK u) g RB_RED gd (Node pl p RB_BLACK pd t)))"
      by auto
    have "rb_insert_color_body h rt (Some p) (root_ptr t) = ret (h3, rt, Some g)"
      by (simp add: rb_insert_color_body_def rb_set_blackred_def e1 e2 e3 e4 ne2 True s1 s2 s3)
    with w3 b True show ?thesis by auto
  next
    case False
    have ne: "root_ptr pl \<noteq> root_ptr t"
      using w t by (cases t) (auto simp: tree_at_def distinct_plug dest: root_ptr_in)
    from set_COLOR_tree [of h rt "RF u g gc gd # cg" pl p pc pd t RB_BLACK] w obtain h2 where
      s2: "set_COLOR h (Some p) RB_BLACK = ret h2"
      and w2: "tree_at h2 rt (plug cg (Node u g gc gd (Node pl p RB_BLACK pd t)))"
      by auto
    from set_COLOR_tree [of h2 rt cg u g gc gd "Node pl p RB_BLACK pd t" RB_RED] w2 obtain h3 where
      s3: "set_COLOR h2 (Some g) RB_RED = ret h3"
      and w3: "tree_at h3 rt (plug cg (Node u g RB_RED gd (Node pl p RB_BLACK pd t)))"
      by auto
    from rb_rotate_left_tree [where h = h3 and rt = rt and c = cg and a = u and x = g and cx = RB_RED
        and dx = gd and b = pl and y = p and cy = RB_BLACK and dy = pd and g = t] w3 obtain h4 rt4 where
      s4: "rb_rotate_left h3 rt (Some g) = ret (h4, rt4)"
      and w4: "tree_at h4 rt4 (plug cg (Node (Node u g RB_RED gd pl) p RB_BLACK pd t))"
      by auto
    have "rb_insert_color_body h rt (Some p) (root_ptr t) = ret (h4, rt4, root_ptr t)"
      by (simp add: rb_insert_color_body_def rb_set_blackred_def e1 e2 e3 e4 e5 ne ne2 False s2 s3 s4)
    with w4 b False show ?thesis by auto
  qed
qed

lemma ins_body_ref_LR:
  assumes w: "tree_at h rt (plug (LF p pc pd pr # RF u g gc gd # cg) t)" and t: "t \<noteq> Leaf"
    and b: "ins_body (LF p pc pd pr # RF u g gc gd # cg) t = Some (c', t')"
  shows "\<exists>h' rt'. rb_insert_color_body h rt (Some p) (root_ptr t) = ret (h', rt', root_ptr t') \<and>
           tree_at h' rt' (plug c' t')"
proof -
  have e1: "RBN_PARENT h (Some p) = ret (Some g)" and e5: "RBN_LEFT h (Some p) = ret (root_ptr t)"
    using reads_tree(1,3) [of h rt "RF u g gc gd # cg" t p pc pd pr] w by simp_all
  have e2: "RBN_LEFT h (Some g) = ret (root_ptr u)" and e3: "RBN_RIGHT h (Some g) = ret (Some p)"
    using reads_tree(1,2) [of h rt cg u g gc gd "Node t p pc pd pr"] w by simp_all
  have e4: "is_red h (root_ptr u) = ret (color_of u = RB_RED)"
    using is_red_tree [of h rt "LF g gc gd (Node t p pc pd pr) # cg" u] w by simp
  have ne2: "Some p \<noteq> root_ptr u"
    using w by (auto simp: tree_at_def distinct_plug dest: root_ptr_in [OF sym])
  show ?thesis
  proof (cases "color_of u = RB_RED")
    case True
    then have u: "u \<noteq> Leaf" by auto
    from set_COLOR_root [of h rt "LF g gc gd (Node t p pc pd pr) # cg" u RB_BLACK] w u obtain h1 where
      s1: "set_COLOR h (root_ptr u) RB_BLACK = ret h1"
      and w1: "tree_at h1 rt (plug cg (Node (paint RB_BLACK u) g gc gd (Node t p pc pd pr)))"
      by auto
    from set_COLOR_tree [of h1 rt "RF (paint RB_BLACK u) g gc gd # cg" t p pc pd pr RB_BLACK] w1 obtain h2 where
      s2: "set_COLOR h1 (Some p) RB_BLACK = ret h2"
      and w2: "tree_at h2 rt (plug cg (Node (paint RB_BLACK u) g gc gd (Node t p RB_BLACK pd pr)))"
      by auto
    from set_COLOR_tree [of h2 rt cg "paint RB_BLACK u" g gc gd "Node t p RB_BLACK pd pr" RB_RED] w2 obtain h3 where
      s3: "set_COLOR h2 (Some g) RB_RED = ret h3"
      and w3: "tree_at h3 rt (plug cg (Node (paint RB_BLACK u) g RB_RED gd (Node t p RB_BLACK pd pr)))"
      by auto
    have "rb_insert_color_body h rt (Some p) (root_ptr t) = ret (h3, rt, Some g)"
      by (simp add: rb_insert_color_body_def rb_set_blackred_def e1 e2 e3 e4 ne2 True s1 s2 s3)
    with w3 b True show ?thesis by auto
  next
    case False
    from t obtain xl x xc xd xr where tn: "t = Node xl x xc xd xr" by (cases t) auto
    from rb_rotate_right_tree [where h = h and rt = rt and c = "RF u g gc gd # cg" and g = xl and y = x
        and cy = xc and dy = xd and b = xr and x = p and cx = pc and dx = pd and a = pr] w tn obtain h1 rt1 where
      s1: "rb_rotate_right h rt (Some p) = ret (h1, rt1)"
      and w1: "tree_at h1 rt1 (plug cg (Node u g gc gd (Node xl x xc xd (Node xr p pc pd pr))))"
      by auto
    from set_COLOR_tree [of h1 rt1 "RF u g gc gd # cg" xl x xc xd "Node xr p pc pd pr" RB_BLACK] w1 obtain h2 where
      s2: "set_COLOR h1 (Some x) RB_BLACK = ret h2"
      and w2: "tree_at h2 rt1 (plug cg (Node u g gc gd (Node xl x RB_BLACK xd (Node xr p pc pd pr))))"
      by auto
    from set_COLOR_tree [of h2 rt1 cg u g gc gd "Node xl x RB_BLACK xd (Node xr p pc pd pr)" RB_RED] w2 obtain h3 where
      s3: "set_COLOR h2 (Some g) RB_RED = ret h3"
      and w3: "tree_at h3 rt1 (plug cg (Node u g RB_RED gd (Node xl x RB_BLACK xd (Node xr p pc pd pr))))"
      by auto
    from rb_rotate_left_tree [where h = h3 and rt = rt1 and c = cg and a = u and x = g and cx = RB_RED
        and dx = gd and b = xl and y = x and cy = RB_BLACK and dy = xd and g = "Node xr p pc pd pr"] w3
    obtain h4 rt4 where
      s4: "rb_rotate_left h3 rt1 (Some g) = ret (h4, rt4)"
      and w4: "tree_at h4 rt4 (plug cg (Node (Node u g RB_RED gd xl) x RB_BLACK xd (Node xr p pc pd pr)))"
      by auto
    have "rb_insert_color_body h rt (Some p) (root_ptr t) = ret (h4, rt4, Some p)"
      using e5 by (simp add: rb_insert_color_body_def rb_set_blackred_def e1 e2 e3 e4 ne2 tn False s1 s2 s3 s4)
    with w4 b False tn show ?thesis by auto
  qed
qed

lemma plug_Leaf: "(plug c t = Leaf) = (c = [] \<and> t = Leaf)"
proof (induction c arbitrary: t)
  case Nil
  then show ?case by simp
next
  case (Cons f c)
  show ?case by (cases f) (simp_all add: Cons.IH)
qed

lemma ins_body_ref:
  assumes w: "tree_at h rt (plug c t)" and t: "t \<noteq> Leaf" and b: "ins_body c t = Some (c', t')"
  shows "\<exists>h' rt'. rb_insert_color_body h rt (ctx_ptr c) (root_ptr t) = ret (h', rt', root_ptr t') \<and>
           tree_at h' rt' (plug c' t')"
proof (cases "(c, t)" rule: ins_body.cases)
  case (1 p pc pd pr g gc gd u cg t0)
  then have c: "c = LF p pc pd pr # LF g gc gd u # cg" by simp
  from ins_body_ref_LL [OF w [unfolded c] t b [unfolded c]] show ?thesis
    unfolding c ctx_ptr.simps .
next
  case (2 pl p pc pd g gc gd u cg t0)
  then have c: "c = RF pl p pc pd # LF g gc gd u # cg" by simp
  from ins_body_ref_RL [OF w [unfolded c] t b [unfolded c]] show ?thesis
    unfolding c ctx_ptr.simps .
next
  case (3 pl p pc pd u g gc gd cg t0)
  then have c: "c = RF pl p pc pd # RF u g gc gd # cg" by simp
  from ins_body_ref_RR [OF w [unfolded c] t b [unfolded c]] show ?thesis
    unfolding c ctx_ptr.simps .
next
  case (4 p pc pd pr u g gc gd cg t0)
  then have c: "c = LF p pc pd pr # RF u g gc gd # cg" by simp
  from ins_body_ref_LR [OF w [unfolded c] t b [unfolded c]] show ?thesis
    unfolding c ctx_ptr.simps .
next
  case (5 f t0)
  with b show ?thesis by simp
next
  case (6 t0)
  with b show ?thesis by simp
qed

text \<open>The loop of \<open>rb_insert_color\<close>.\<close>

lemma ins_loop_ref:
  assumes "ins_inv c t" and "tree_at h rt (plug c t)"
  shows "\<exists>h' rt' T. rb_insert_color_while h rt (root_ptr t) = ret (h', rt') \<and> tree_at h' rt' T \<and>
           elems T = elems (plug c t) \<and> invc T \<and> invh T \<and> T \<noteq> Leaf"
  using assms
proof (induction "length c" arbitrary: c t h rt rule: less_induct)
  case less
  from less.prems(1) have tl: "t \<noteq> Leaf" by (auto simp: ins_inv_def)
  then obtain l x col d r where tn: "t = Node l x col d r" by (cases t) auto
  have e1: "RBN_PARENT h (root_ptr t) = ret (ctx_ptr c)"
    using reads_tree(3) [of h rt c l x col d r] less.prems(2) tn by simp
  have e2: "is_red h (ctx_ptr c) = ret (ctx_color c = RB_RED)"
    using is_red_ctx [OF less.prems(2)] .
  show ?case
  proof (cases "ctx_color c = RB_RED")
    case False
    have "rb_insert_color_while h rt (root_ptr t) = ret (h, rt)"
      by (subst rb_insert_color_while.simps) (simp add: e1 e2 False)
    moreover have "invc (plug c t) \<and> invh (plug c t)"
      using less.prems(1) False by (simp add: inv_plug ins_inv_def)
    moreover have "plug c t \<noteq> Leaf"
      using tl by (simp add: plug_Leaf)
    ultimately show ?thesis using less.prems(2) by blast
  next
    case True
    from ins_body_inv [OF less.prems(1) True] obtain c' t' where
      b: "ins_body c t = Some (c', t')" and i': "ins_inv c' t'" and len: "length c' < length c"
      and el: "elems (plug c' t') = elems (plug c t)"
      by blast
    from ins_body_ref [OF less.prems(2) tl b] obtain h1 rt1 where
      s: "rb_insert_color_body h rt (ctx_ptr c) (root_ptr t) = ret (h1, rt1, root_ptr t')"
      and w1: "tree_at h1 rt1 (plug c' t')"
      by blast
    from less.hyps [OF len i' w1] obtain h' rt' T where
      "rb_insert_color_while h1 rt1 (root_ptr t') = ret (h', rt')" "tree_at h' rt' T"
      "elems T = elems (plug c' t')" "invc T" "invh T" "T \<noteq> Leaf"
      by blast
    moreover have "rb_insert_color_while h rt (root_ptr t) = rb_insert_color_while h1 rt1 (root_ptr t')"
      by (subst rb_insert_color_while.simps) (simp add: e1 e2 True s)
    ultimately show ?thesis using el by auto
  qed
qed

lemma rb_insert_color_ref:
  assumes "ins_inv c t" and "tree_at h rt (plug c t)"
  shows "\<exists>h' rt' T. rb_insert_color h rt (root_ptr t) = ret (h', rt') \<and> tree_at h' rt' T \<and>
           elems T = elems (plug c t) \<and> rbt_inv T"
proof -
  from ins_loop_ref [OF assms] obtain h1 rt1 T where
    l: "rb_insert_color_while h rt (root_ptr t) = ret (h1, rt1)" and w1: "tree_at h1 rt1 T"
    and el: "elems T = elems (plug c t)" and i: "invc T" "invh T" and nl: "T \<noteq> Leaf"
    by blast
  from w1 have rt1: "rt1 = root_ptr T" by (auto simp: tree_at_def dest: rep_ptr)
  from set_COLOR_root [of h1 rt1 "[]" T RB_BLACK] w1 nl obtain h2 where
    s: "set_COLOR h1 (root_ptr T) RB_BLACK = ret h2" and w2: "tree_at h2 rt1 (paint RB_BLACK T)"
    by auto
  have "rb_insert_color h rt (root_ptr t) = ret (h2, rt1)"
    by (simp add: rb_insert_color_def l rt1 [symmetric] s [folded rt1])
  moreover have "rbt_inv (paint RB_BLACK T)"
    using i nl by (cases T) (auto simp: rbt_inv_def)
  ultimately show ?thesis
    using w2 el by (auto simp: paint_black_red)
qed

section \<open>\<open>rb_insert_node\<close>\<close>

text \<open>\<open>ins_path cf d c t\<close> is the path of the descent of \<open>rb_insert_node\<close> for the data
  node \<open>d\<close> under the comparator \<open>cf\<close>: left where the comparator is positive, right
  otherwise.\<close>

fun ins_path :: "(addr option \<Rightarrow> addr option \<Rightarrow> int) \<Rightarrow> addr option \<Rightarrow> frame list \<Rightarrow> rbtree \<Rightarrow> frame list" where
  "ins_path cf d c Leaf = c"
| "ins_path cf d c (Node l a col e r) =
     (if cf e d > 0 then ins_path cf d (LF a col e r # c) l
      else ins_path cf d (RF l a col e # c) r)"

fun top_is_left :: "frame list \<Rightarrow> bool" where
  "top_is_left (LF a c d r # fs) = True"
| "top_is_left fs = False"

lemma plug_ins_path: "plug (ins_path cf d c t) Leaf = plug c t"
  by (induction t arbitrary: c) auto

lemma ins_path_nonempty: "t \<noteq> Leaf \<or> c \<noteq> [] \<Longrightarrow> ins_path cf d c t \<noteq> []"
  by (induction t arbitrary: c) auto

lemma elems_plug_subset: "set (elems t) \<subseteq> set (elems (plug c t))"
proof (induction c arbitrary: t)
  case Nil
  then show ?case by simp
next
  case (Cons f c)
  show ?case
  proof (cases f)
    case (LF a col d r)
    with Cons.IH [of "Node t a col d r"] show ?thesis by auto
  next
    case (RF l a col d)
    with Cons.IH [of "Node l a col d t"] show ?thesis by auto
  qed
qed

lemma ins_while_ref:
  assumes "tree_at h rt (plug c t)" and "RBN_DNODE h rbn = ret d"
    and "\<And>e. e \<in> snd ` set (elems t) \<Longrightarrow> cmpf e d = ret (cf e d)"
  shows "\<exists>cmp'. rb_insert_node_while cmpf h rbn (root_ptr t) (ctx_ptr c) cmp0 =
            ret (ctx_ptr (ins_path cf d c t), cmp') \<and>
          (if t = Leaf then cmp' = cmp0 else (cmp' > 0) = top_is_left (ins_path cf d c t))"
  using assms
proof (induction t arbitrary: c cmp0)
  case Leaf
  then show ?case
    by (subst rb_insert_node_while.simps) simp
next
  case (Node l a col e r)
  note w = Node.prems(1)
  have e1: "RBN_DNODE h (Some a) = ret e" and e2: "RBN_LEFT h (Some a) = ret (root_ptr l)"
    and e3: "RBN_RIGHT h (Some a) = ret (root_ptr r)"
    using reads_tree [OF w] by simp_all
  have e4: "cmpf e d = ret (cf e d)"
    by (rule Node.prems(3)) force
  show ?case
  proof (cases "cf e d > 0")
    case True
    have w': "tree_at h rt (plug (LF a col e r # c) l)" using w by simp
    have cm: "\<And>e'. e' \<in> snd ` set (elems l) \<Longrightarrow> cmpf e' d = ret (cf e' d)"
      by (rule Node.prems(3)) auto
    from Node.IH(1) [OF w' Node.prems(2) cm, of "cf e d"] obtain cmp' where
      r: "rb_insert_node_while cmpf h rbn (root_ptr l) (Some a) (cf e d) =
            ret (ctx_ptr (ins_path cf d (LF a col e r # c) l), cmp')"
      and p: "(if l = Leaf then cmp' = cf e d else (cmp' > 0) = top_is_left (ins_path cf d (LF a col e r # c) l))"
      by auto
    have "rb_insert_node_while cmpf h rbn (root_ptr (Node l a col e r)) (ctx_ptr c) cmp0 =
            ret (ctx_ptr (ins_path cf d c (Node l a col e r)), cmp')"
      by (subst rb_insert_node_while.simps) (simp add: e1 e2 e4 Node.prems(2) True r)
    moreover have "(cmp' > 0) = top_is_left (ins_path cf d c (Node l a col e r))"
      using p True by (cases "l = Leaf") auto
    ultimately show ?thesis by auto
  next
    case False
    have w': "tree_at h rt (plug (RF l a col e # c) r)" using w by simp
    have cm: "\<And>e'. e' \<in> snd ` set (elems r) \<Longrightarrow> cmpf e' d = ret (cf e' d)"
      by (rule Node.prems(3)) auto
    from Node.IH(2) [OF w' Node.prems(2) cm, of "cf e d"] obtain cmp' where
      r: "rb_insert_node_while cmpf h rbn (root_ptr r) (Some a) (cf e d) =
            ret (ctx_ptr (ins_path cf d (RF l a col e # c) r), cmp')"
      and p: "(if r = Leaf then cmp' = cf e d else (cmp' > 0) = top_is_left (ins_path cf d (RF l a col e # c) r))"
      by auto
    have "rb_insert_node_while cmpf h rbn (root_ptr (Node l a col e r)) (ctx_ptr c) cmp0 =
            ret (ctx_ptr (ins_path cf d c (Node l a col e r)), cmp')"
      by (subst rb_insert_node_while.simps) (simp add: e1 e3 e4 Node.prems(2) False r)
    moreover have "(cmp' > 0) = top_is_left (ins_path cf d c (Node l a col e r))"
      using p False by (cases "r = Leaf") auto
    ultimately show ?thesis by auto
  qed
qed

lemma link_left:
  assumes w: "tree_at h rt (plug (LF p pc pd pr # c) Leaf)" and hn: "h x = Some nn"
    and fresh: "x \<notin> set (addrs (plug (LF p pc pd pr # c) Leaf))"
  shows "\<exists>h1 h2. rb_set h (Some x) (Some p) = ret h1 \<and> set_LEFT h1 (Some p) (Some x) = ret h2 \<and>
           tree_at h2 rt (plug (LF p pc pd pr # c) (Node Leaf x RB_RED (dnode nn) Leaf))"
proof -
  from w [unfolded tree_at_plug] have rc: "repc h (LF p pc pd pr # c) None (Some p) rt"
    and d: "distinct (addrs_c (LF p pc pd pr # c))"
    by simp_all
  from fresh have fx: "x \<noteq> p" "x \<notin> set (addrs pr)" "x \<notin> set (addrs_c c)"
    by (auto simp: addrs_plug)
  from rc obtain m where hp: "h p = Some m" and lm: "left m = None"
    and cm: "color m = pc" and dm: "dnode m = pd"
    and rpr: "rep h (Some p) (right m) pr" and rc': "repc h c (Some p) (parent m) rt"
    by (auto split: option.splits)
  define h1 where "h1 = h(x \<mapsto> nn\<lparr>parent := Some p, left := None, right := None, color := RB_RED\<rparr>)"
  define h2 where "h2 = h1(p \<mapsto> m\<lparr>left := Some x\<rparr>)"
  have e1: "rb_set h (Some x) (Some p) = ret h1"
    by (simp add: rb_set_def hn h1_def)
  have e2: "set_LEFT h1 (Some p) (Some x) = ret h2"
    using fx by (simp add: set_LEFT_def h1_def h2_def hp)
  have "rep h2 (Some p) (right m) pr"
    using rpr d fx by (subst rep_frame [of _ _ h]) (auto simp: h2_def h1_def)
  moreover have "repc h2 c (Some p) (parent m) rt"
    using rc' d fx by (subst repc_frame [of _ _ h]) (auto simp: h2_def h1_def)
  ultimately have "tree_at h2 rt (plug (LF p pc pd pr # c) (Node Leaf x RB_RED (dnode nn) Leaf))"
    unfolding tree_at_plug using d fx cm dm by (simp add: h2_def h1_def)
  with e1 e2 show ?thesis by blast
qed

lemma link_right:
  assumes w: "tree_at h rt (plug (RF pl p pc pd # c) Leaf)" and hn: "h x = Some nn"
    and fresh: "x \<notin> set (addrs (plug (RF pl p pc pd # c) Leaf))"
  shows "\<exists>h1 h2. rb_set h (Some x) (Some p) = ret h1 \<and> set_RIGHT h1 (Some p) (Some x) = ret h2 \<and>
           tree_at h2 rt (plug (RF pl p pc pd # c) (Node Leaf x RB_RED (dnode nn) Leaf))"
proof -
  from w [unfolded tree_at_plug] have rc: "repc h (RF pl p pc pd # c) None (Some p) rt"
    and d: "distinct (addrs_c (RF pl p pc pd # c))"
    by simp_all
  from fresh have fx: "x \<noteq> p" "x \<notin> set (addrs pl)" "x \<notin> set (addrs_c c)"
    by (auto simp: addrs_plug)
  from rc obtain m where hp: "h p = Some m" and lm: "right m = None"
    and cm: "color m = pc" and dm: "dnode m = pd"
    and rpr: "rep h (Some p) (left m) pl" and rc': "repc h c (Some p) (parent m) rt"
    by (auto split: option.splits)
  define h1 where "h1 = h(x \<mapsto> nn\<lparr>parent := Some p, left := None, right := None, color := RB_RED\<rparr>)"
  define h2 where "h2 = h1(p \<mapsto> m\<lparr>right := Some x\<rparr>)"
  have e1: "rb_set h (Some x) (Some p) = ret h1"
    by (simp add: rb_set_def hn h1_def)
  have e2: "set_RIGHT h1 (Some p) (Some x) = ret h2"
    using fx by (simp add: set_RIGHT_def h1_def h2_def hp)
  have "rep h2 (Some p) (left m) pl"
    using rpr d fx by (subst rep_frame [of _ _ h]) (auto simp: h2_def h1_def)
  moreover have "repc h2 c (Some p) (parent m) rt"
    using rc' d fx by (subst repc_frame [of _ _ h]) (auto simp: h2_def h1_def)
  ultimately have "tree_at h2 rt (plug (RF pl p pc pd # c) (Node Leaf x RB_RED (dnode nn) Leaf))"
    unfolding tree_at_plug using d fx cm dm by (simp add: h2_def h1_def)
  with e1 e2 show ?thesis by blast
qed

lemma rb_insert_node_ref:
  assumes w: "tree_at h rt T" and inv: "rbt_inv T" and nl: "T \<noteq> Leaf"
    and hn: "h x = Some nn" and fresh: "x \<notin> set (addrs T)"
    and cmp: "rb_compare srt dn h rt = ret cmpf"
    and cm: "\<And>e. e \<in> snd ` set (elems T) \<Longrightarrow> cmpf e (dnode nn) = ret (cf e (dnode nn))"
  shows "\<exists>h' rt' T'. rb_insert_node srt dn h rt (Some x) = ret (h', rt') \<and> tree_at h' rt' T' \<and>
           rbt_inv T' \<and>
           elems T' = elems (plug (ins_path cf (dnode nn) [] T) (Node Leaf x RB_RED (dnode nn) Leaf))"
proof -
  define d where "d = dnode nn"
  define c' where "c' = ins_path cf d [] T"
  define N where "N = Node Leaf x RB_RED d Leaf"
  have pl: "plug c' Leaf = T" by (simp add: c'_def plug_ins_path)
  have rt: "rt = root_ptr T" using w by (auto simp: tree_at_def dest: rep_ptr)
  have w0: "tree_at h rt (plug [] T)" using w by simp
  have rd: "RBN_DNODE h (Some x) = ret d" by (simp add: RBN_DNODE_def hn d_def)
  from ins_while_ref [OF w0 rd, of cmpf cf 0] cm obtain cmp' where
    lp: "rb_insert_node_while cmpf h (Some x) rt None 0 = ret (ctx_ptr c', cmp')"
    and side: "(cmp' > 0) = top_is_left c'"
    using nl by (auto simp: d_def c'_def rt)
  have ne: "c' \<noteq> []" using nl by (simp add: c'_def ins_path_nonempty)
  have w': "tree_at h rt (plug c' Leaf)" using w pl by simp
  have fresh': "x \<notin> set (addrs (plug c' Leaf))" using fresh pl by simp
  have "\<exists>h1 h2. rb_set h (Some x) (ctx_ptr c') = ret h1 \<and>
           (if ctx_ptr c' \<noteq> None then
               obind (if cmp' > 0 then set_LEFT h1 (ctx_ptr c') (Some x) else set_RIGHT h1 (ctx_ptr c') (Some x))
                 (\<lambda>h. ret (h, rt))
             else ret (h1, Some x)) = ret (h2, rt) \<and> tree_at h2 rt (plug c' N)"
  proof (cases c')
    case Nil
    with ne show ?thesis by simp
  next
    case (Cons f c'')
    show ?thesis
    proof (cases f)
      case (LF p pc pd pr)
      with Cons side have pos: "cmp' > 0" by simp
      from link_left [OF w' [unfolded Cons LF] hn fresh' [unfolded Cons LF]] obtain h1 h2 where
        "rb_set h (Some x) (Some p) = ret h1" "set_LEFT h1 (Some p) (Some x) = ret h2"
        "tree_at h2 rt (plug (LF p pc pd pr # c'') (Node Leaf x RB_RED (dnode nn) Leaf))"
        by blast
      then show ?thesis
        using pos by (simp add: Cons LF N_def d_def)
    next
      case (RF ql p pc pd)
      with Cons side have pos: "\<not> cmp' > 0" by simp
      from link_right [OF w' [unfolded Cons RF] hn fresh' [unfolded Cons RF]] obtain h1 h2 where
        "rb_set h (Some x) (Some p) = ret h1" "set_RIGHT h1 (Some p) (Some x) = ret h2"
        "tree_at h2 rt (plug (RF ql p pc pd # c'') (Node Leaf x RB_RED (dnode nn) Leaf))"
        by blast
      then show ?thesis
        using pos by (simp add: Cons RF N_def d_def)
    qed
  qed
  then obtain h1 h2 where
    st: "rb_set h (Some x) (ctx_ptr c') = ret h1"
    and lk: "(if ctx_ptr c' \<noteq> None then
               obind (if cmp' > 0 then set_LEFT h1 (ctx_ptr c') (Some x) else set_RIGHT h1 (ctx_ptr c') (Some x))
                 (\<lambda>h. ret (h, rt))
             else ret (h1, Some x)) = ret (h2, rt)"
    and w2: "tree_at h2 rt (plug c' N)"
    by blast
  have "invc T \<and> invh T" "color_of T = RB_BLACK" using inv by (simp_all add: rbt_inv_def)
  then have "cinv c' 0" "fcolor (last c') = RB_BLACK"
    using inv_plug [of c' Leaf] color_plug [of c' Leaf] pl ne by auto
  then have ii: "ins_inv c' N" by (simp add: ins_inv_def N_def)
  from rb_insert_color_ref [OF ii w2] obtain h' rt' T' where
    ic: "rb_insert_color h2 rt (root_ptr N) = ret (h', rt')" and w3: "tree_at h' rt' T'"
    and el: "elems T' = elems (plug c' N)" and i3: "rbt_inv T'"
    by blast
  have "rb_insert_node srt dn h rt (Some x) = ret (h', rt')"
    using ic by (simp only: rb_insert_node_def cmp lp st lk N_def obind_ret prod.case root_ptr.simps)
  with w3 el i3 show ?thesis
    unfolding c'_def N_def d_def by blast
qed

section \<open>\<open>rb_remove_color\<close> restores the invariants\<close>

text \<open>
  One pass through the loop of \<open>rb_remove_color\<close> on the position \<open>(c, t)\<close>, whose subtree
  is one black node short: \<open>rem_rot_L\<close> is the step taken when the sibling is red,
  \<open>rem_fix\<close> the rest of the body; \<open>Cont\<close> is the next position of the loop, \<open>Done\<close>
  the whole tree when the body ends with \<open>rbn = *rbt\<close>.
\<close>

datatype rem_res = Cont "frame list" rbtree | Done rbtree

fun rem_rot_L :: "addr \<Rightarrow> color \<Rightarrow> addr option \<Rightarrow> rbtree \<Rightarrow> frame list \<Rightarrow> frame list option" where
  "rem_rot_L p pc pd (Node sl sa sc sd sr) c =
     (if sc = RB_RED then Some (LF p RB_RED pd sl # LF sa RB_BLACK sd sr # c)
      else Some (LF p pc pd (Node sl sa sc sd sr) # c))"
| "rem_rot_L p pc pd Leaf c = None"

fun rem_rot_R :: "rbtree \<Rightarrow> addr \<Rightarrow> color \<Rightarrow> addr option \<Rightarrow> frame list \<Rightarrow> frame list option" where
  "rem_rot_R (Node sl sa sc sd sr) p pc pd c =
     (if sc = RB_RED then Some (RF sr p RB_RED pd # RF sl sa RB_BLACK sd # c)
      else Some (RF (Node sl sa sc sd sr) p pc pd # c))"
| "rem_rot_R Leaf p pc pd c = None"

fun rem_fix :: "frame list \<Rightarrow> rbtree \<Rightarrow> rem_res option" where
  "rem_fix (LF p pc pd (Node sl sa sc sd sr) # c) t =
     (if color_of sl = RB_BLACK \<and> color_of sr = RB_BLACK
      then Some (Cont c (Node t p pc pd (Node sl sa RB_RED sd sr)))
      else if color_of sr = RB_BLACK then
        (case sl of Leaf \<Rightarrow> None
         | Node sll sla slc sld slr \<Rightarrow>
             Some (Done (plug c (Node (Node t p RB_BLACK pd sll) sla pc sld
                                   (Node slr sa RB_BLACK sd sr)))))
      else Some (Done (plug c (Node (Node t p RB_BLACK pd sl) sa pc sd (paint RB_BLACK sr)))))"
| "rem_fix (RF (Node sl sa sc sd sr) p pc pd # c) t =
     (if color_of sl = RB_BLACK \<and> color_of sr = RB_BLACK
      then Some (Cont c (Node (Node sl sa RB_RED sd sr) p pc pd t))
      else if color_of sl = RB_BLACK then
        (case sr of Leaf \<Rightarrow> None
         | Node srl sra src srd srr \<Rightarrow>
             Some (Done (plug c (Node (Node sl sa RB_BLACK sd srl) sra pc srd
                                   (Node srr p RB_BLACK pd t)))))
      else Some (Done (plug c (Node (paint RB_BLACK sl) sa pc sd (Node sr p RB_BLACK pd t)))))"
| "rem_fix c t = None"

fun rem_body :: "frame list \<Rightarrow> rbtree \<Rightarrow> rem_res option" where
  "rem_body (LF p pc pd s # c) t =
     (case rem_rot_L p pc pd s c of None \<Rightarrow> None | Some c1 \<Rightarrow> rem_fix c1 t)"
| "rem_body (RF s p pc pd # c) t =
     (case rem_rot_R s p pc pd c of None \<Rightarrow> None | Some c1 \<Rightarrow> rem_fix c1 t)"
| "rem_body [] t = None"

definition rem_inv :: "frame list \<Rightarrow> rbtree \<Rightarrow> bool" where
  "rem_inv c t = (invc (paint RB_BLACK t) \<and> invh t \<and> cinv c (Suc (bheight t)) \<and>
                  (c \<noteq> [] \<longrightarrow> fcolor (last c) = RB_BLACK))"

definition rem_measure :: "frame list \<Rightarrow> rbtree \<Rightarrow> nat" where
  "rem_measure c t = 2 * length c + (if color_of t = RB_BLACK then 1 else 0)"

lemma invc_paint: "invc t \<Longrightarrow> invc (paint RB_BLACK t)"
  by (cases t) auto

lemma invc_black: "color_of t = RB_BLACK \<Longrightarrow> invc (paint RB_BLACK t) = invc t"
  by (cases t) auto

lemma paint_simps [simp]:
  "invh (paint c t) = invh t" "elems (paint c t) = elems t" "addrs (paint c t) = addrs t"
  "root_ptr (paint c t) = root_ptr t" "(paint c t = Leaf) = (t = Leaf)"
  by (cases t; simp)+

lemma bheight_paint_black:
  "bheight (paint RB_BLACK t) = (if color_of t = RB_RED then Suc (bheight t) else bheight t)"
  by (cases t) auto

lemma rem_rot_L_inv:
  assumes "rem_inv (LF p pc pd s # c) t" and "color_of t = RB_BLACK"
  shows "\<exists>qc s1 c1. rem_rot_L p pc pd s c = Some (LF p qc pd s1 # c1) \<and>
           rem_inv (LF p qc pd s1 # c1) t \<and> color_of s1 = RB_BLACK \<and> s1 \<noteq> Leaf \<and>
           elems (plug (LF p qc pd s1 # c1) t) = elems (plug (LF p pc pd s # c) t) \<and>
           (c1 = c \<and> qc = pc \<or> qc = RB_RED \<and> (\<exists>f. c1 = f # c \<and> fcolor f = RB_BLACK))"
proof (cases s)
  case Leaf
  with assms show ?thesis by (simp add: rem_inv_def)
next
  case (Node sl sa sc sd sr)
  show ?thesis
  proof (cases sc)
    case RB_BLACK
    with assms Node show ?thesis by (simp add: rem_inv_def)
  next
    case RB_RED
    with assms Node have "sl \<noteq> Leaf"
      by (cases sl) (auto simp: rem_inv_def)
    with assms Node RB_RED show ?thesis
      by (auto simp: rem_inv_def invc_black intro!: elems_plug_cong)
  qed
qed

lemma rem_rot_R_inv:
  assumes "rem_inv (RF s p pc pd # c) t" and "color_of t = RB_BLACK"
  shows "\<exists>qc s1 c1. rem_rot_R s p pc pd c = Some (RF s1 p qc pd # c1) \<and>
           rem_inv (RF s1 p qc pd # c1) t \<and> color_of s1 = RB_BLACK \<and> s1 \<noteq> Leaf \<and>
           elems (plug (RF s1 p qc pd # c1) t) = elems (plug (RF s p pc pd # c) t) \<and>
           (c1 = c \<and> qc = pc \<or> qc = RB_RED \<and> (\<exists>f. c1 = f # c \<and> fcolor f = RB_BLACK))"
proof (cases s)
  case Leaf
  with assms show ?thesis by (simp add: rem_inv_def)
next
  case (Node sl sa sc sd sr)
  show ?thesis
  proof (cases sc)
    case RB_BLACK
    with assms Node show ?thesis by (simp add: rem_inv_def)
  next
    case RB_RED
    with assms Node have "sr \<noteq> Leaf"
      by (cases sr) (auto simp: rem_inv_def)
    with assms Node RB_RED show ?thesis
      by (auto simp: rem_inv_def invc_black intro!: elems_plug_cong)
  qed
qed

lemma rem_fix_inv_L:
  assumes "rem_inv (LF p pc pd s # c) t" and "color_of t = RB_BLACK"
    and "color_of s = RB_BLACK" and "s \<noteq> Leaf"
  shows "case rem_fix (LF p pc pd s # c) t of None \<Rightarrow> False
         | Some (Cont c' t') \<Rightarrow> c' = c \<and> rem_inv c t' \<and> color_of t' = pc \<and>
             elems (plug c t') = elems (plug (LF p pc pd s # c) t)
         | Some (Done T) \<Rightarrow> rbt_inv T \<and> elems T = elems (plug (LF p pc pd s # c) t)"
proof -
  from assms(3,4) obtain sl sa sd sr where s: "s = Node sl sa RB_BLACK sd sr"
    by (cases s) auto
  show ?thesis
  proof (cases "color_of sl = RB_BLACK \<and> color_of sr = RB_BLACK")
    case True
    with assms s show ?thesis
      by (auto simp: rem_inv_def invc_black intro!: elems_plug_cong)
  next
    case False
    note nb = False
    show ?thesis
    proof (cases "color_of sr = RB_BLACK")
      case True
      with nb obtain sll sla sld slr where sl: "sl = Node sll sla RB_RED sld slr"
        by (cases sl) auto
      have "invc (plug c (Node (Node t p RB_BLACK pd sll) sla pc sld (Node slr sa RB_BLACK sd sr))) \<and>
            invh (plug c (Node (Node t p RB_BLACK pd sll) sla pc sld (Node slr sa RB_BLACK sd sr)))"
        using assms s sl True by (auto simp: rem_inv_def invc_black inv_plug)
      moreover have "color_of (plug c (Node (Node t p RB_BLACK pd sll) sla pc sld (Node slr sa RB_BLACK sd sr))) = RB_BLACK"
        using assms(1) by (auto simp: color_plug rem_inv_def)
      ultimately show ?thesis
        using s sl True nb by (auto simp: rbt_inv_def intro!: elems_plug_cong)
    next
      case False
      then obtain srl sra srd srr where sr: "sr = Node srl sra RB_RED srd srr"
        by (cases sr) auto
      have "invc (plug c (Node (Node t p RB_BLACK pd sl) sa pc sd (paint RB_BLACK sr))) \<and>
            invh (plug c (Node (Node t p RB_BLACK pd sl) sa pc sd (paint RB_BLACK sr)))"
        using assms s sr by (auto simp: rem_inv_def invc_black inv_plug)
      moreover have "color_of (plug c (Node (Node t p RB_BLACK pd sl) sa pc sd (paint RB_BLACK sr))) = RB_BLACK"
        using assms(1) by (auto simp: color_plug rem_inv_def)
      ultimately show ?thesis
        using s sr by (auto simp: rbt_inv_def intro!: elems_plug_cong)
    qed
  qed
qed

lemma rem_fix_inv_R:
  assumes "rem_inv (RF s p pc pd # c) t" and "color_of t = RB_BLACK"
    and "color_of s = RB_BLACK" and "s \<noteq> Leaf"
  shows "case rem_fix (RF s p pc pd # c) t of None \<Rightarrow> False
         | Some (Cont c' t') \<Rightarrow> c' = c \<and> rem_inv c t' \<and> color_of t' = pc \<and>
             elems (plug c t') = elems (plug (RF s p pc pd # c) t)
         | Some (Done T) \<Rightarrow> rbt_inv T \<and> elems T = elems (plug (RF s p pc pd # c) t)"
proof -
  from assms(3,4) obtain sl sa sd sr where s: "s = Node sl sa RB_BLACK sd sr"
    by (cases s) auto
  show ?thesis
  proof (cases "color_of sl = RB_BLACK \<and> color_of sr = RB_BLACK")
    case True
    with assms s show ?thesis
      by (auto simp: rem_inv_def invc_black intro!: elems_plug_cong)
  next
    case False
    note nb = False
    show ?thesis
    proof (cases "color_of sl = RB_BLACK")
      case True
      with nb obtain srl sra srd srr where sr: "sr = Node srl sra RB_RED srd srr"
        by (cases sr) auto
      have "invc (plug c (Node (Node sl sa RB_BLACK sd srl) sra pc srd (Node srr p RB_BLACK pd t))) \<and>
            invh (plug c (Node (Node sl sa RB_BLACK sd srl) sra pc srd (Node srr p RB_BLACK pd t)))"
        using assms s sr True by (auto simp: rem_inv_def invc_black inv_plug)
      moreover have "color_of (plug c (Node (Node sl sa RB_BLACK sd srl) sra pc srd (Node srr p RB_BLACK pd t))) = RB_BLACK"
        using assms(1) by (auto simp: color_plug rem_inv_def)
      ultimately show ?thesis
        using s sr True nb by (auto simp: rbt_inv_def intro!: elems_plug_cong)
    next
      case False
      then obtain sll sla sld slr where sl: "sl = Node sll sla RB_RED sld slr"
        by (cases sl) auto
      have "invc (plug c (Node (paint RB_BLACK sl) sa pc sd (Node sr p RB_BLACK pd t))) \<and>
            invh (plug c (Node (paint RB_BLACK sl) sa pc sd (Node sr p RB_BLACK pd t)))"
        using assms s sl by (auto simp: rem_inv_def invc_black inv_plug)
      moreover have "color_of (plug c (Node (paint RB_BLACK sl) sa pc sd (Node sr p RB_BLACK pd t))) = RB_BLACK"
        using assms(1) by (auto simp: color_plug rem_inv_def)
      ultimately show ?thesis
        using s sl by (auto simp: rbt_inv_def intro!: elems_plug_cong)
    qed
  qed
qed

lemma rem_body_inv:
  assumes "rem_inv c t" and "color_of t = RB_BLACK" and "c \<noteq> []"
  shows "case rem_body c t of None \<Rightarrow> False
         | Some (Cont c' t') \<Rightarrow> rem_inv c' t' \<and> rem_measure c' t' < rem_measure c t \<and>
             elems (plug c' t') = elems (plug c t)
         | Some (Done T) \<Rightarrow> rbt_inv T \<and> elems T = elems (plug c t)"
proof (cases c)
  case Nil
  with assms(3) show ?thesis by simp
next
  case (Cons f c0)
  show ?thesis
  proof (cases f)
    case (LF p pc pd s)
    from rem_rot_L_inv [OF assms(1) [unfolded Cons LF] assms(2)] obtain qc s1 c1 where
      r: "rem_rot_L p pc pd s c0 = Some (LF p qc pd s1 # c1)"
      and i: "rem_inv (LF p qc pd s1 # c1) t" and sb: "color_of s1 = RB_BLACK" "s1 \<noteq> Leaf"
      and el: "elems (plug (LF p qc pd s1 # c1) t) = elems (plug (LF p pc pd s # c0) t)"
      and sh: "c1 = c0 \<and> qc = pc \<or> qc = RB_RED \<and> (\<exists>f. c1 = f # c0 \<and> fcolor f = RB_BLACK)"
      by blast
    have b: "rem_body c t = rem_fix (LF p qc pd s1 # c1) t"
      by (simp add: Cons LF r)
    note fx = rem_fix_inv_L [OF i assms(2) sb]
    show ?thesis
    proof (cases "rem_fix (LF p qc pd s1 # c1) t")
      case None
      with fx show ?thesis by simp
    next
      case (Some res)
      show ?thesis
      proof (cases res)
        case (Done T)
        from fx [unfolded Some Done] el show ?thesis
          unfolding b Some Done by (simp add: Cons LF)
      next
        case (Cont c' t')
        from fx [unfolded Some Cont] have c': "c' = c1" and i': "rem_inv c1 t'" and col: "color_of t' = qc"
          and el': "elems (plug c1 t') = elems (plug (LF p qc pd s1 # c1) t)"
          by simp_all
        have "rem_measure c1 t' < rem_measure c t"
          using sh col assms(2) by (auto simp: rem_measure_def Cons)
        with i' el' el c' show ?thesis
          unfolding b Some Cont by (simp add: Cons LF)
      qed
    qed
  next
    case (RF s p pc pd)
    from rem_rot_R_inv [OF assms(1) [unfolded Cons RF] assms(2)] obtain qc s1 c1 where
      r: "rem_rot_R s p pc pd c0 = Some (RF s1 p qc pd # c1)"
      and i: "rem_inv (RF s1 p qc pd # c1) t" and sb: "color_of s1 = RB_BLACK" "s1 \<noteq> Leaf"
      and el: "elems (plug (RF s1 p qc pd # c1) t) = elems (plug (RF s p pc pd # c0) t)"
      and sh: "c1 = c0 \<and> qc = pc \<or> qc = RB_RED \<and> (\<exists>f. c1 = f # c0 \<and> fcolor f = RB_BLACK)"
      by blast
    have b: "rem_body c t = rem_fix (RF s1 p qc pd # c1) t"
      by (simp add: Cons RF r)
    note fx = rem_fix_inv_R [OF i assms(2) sb]
    show ?thesis
    proof (cases "rem_fix (RF s1 p qc pd # c1) t")
      case None
      with fx show ?thesis by simp
    next
      case (Some res)
      show ?thesis
      proof (cases res)
        case (Done T)
        from fx [unfolded Some Done] el show ?thesis
          unfolding b Some Done by (simp add: Cons RF)
      next
        case (Cont c' t')
        from fx [unfolded Some Cont] have c': "c' = c1" and i': "rem_inv c1 t'" and col: "color_of t' = qc"
          and el': "elems (plug c1 t') = elems (plug (RF s1 p qc pd # c1) t)"
          by simp_all
        have "rem_measure c1 t' < rem_measure c t"
          using sh col assms(2) by (auto simp: rem_measure_def Cons)
        with i' el' el c' show ?thesis
          unfolding b Some Cont by (simp add: Cons RF)
      qed
    qed
  qed
qed

subsection \<open>The body of the loop on the store, left case\<close>

definition rb_remove_color_left_rest :: "rb_heap \<Rightarrow> addr option \<Rightarrow> addr option \<Rightarrow> addr option \<Rightarrow> rmc_step comp" where
  "rb_remove_color_left_rest h rbt par tmp =
       obind (RBN_LEFT h tmp) (\<lambda>tl.
       obind (null_or_black h tl) (\<lambda>lb.
       obind (if lb then obind (RBN_RIGHT h tmp) (\<lambda>tr. null_or_black h tr) else ret False) (\<lambda>both.
       if both then
         obind (set_COLOR h tmp RB_RED) (\<lambda>h.
         obind (RBN_PARENT h par) (\<lambda>gp.
         ret (Inl (h, rbt, gp, par))))
       else
         obind (RBN_RIGHT h tmp) (\<lambda>tr.
         obind (null_or_black h tr) (\<lambda>rb.
         obind (if rb then
                  obind (RBN_LEFT h tmp) (\<lambda>oleft.
                  obind (if oleft \<noteq> None then set_COLOR h oleft RB_BLACK else ret h) (\<lambda>h.
                  obind (set_COLOR h tmp RB_RED) (\<lambda>h.
                  obind (rb_rotate_right h rbt tmp) (\<lambda>(h, rbt).
                  obind (RBN_RIGHT h par) (\<lambda>tmp. ret (h, rbt, tmp))))))
                else ret (h, rbt, tmp)) (\<lambda>(h, rbt, tmp).
         obind (RBN_COLOR h par) (\<lambda>pc.
         obind (set_COLOR h tmp pc) (\<lambda>h.
         obind (set_COLOR h par RB_BLACK) (\<lambda>h.
         obind (RBN_RIGHT h tmp) (\<lambda>tr.
         obind (if tr \<noteq> None then set_COLOR h tr RB_BLACK else ret h) (\<lambda>h.
         obind (rb_rotate_left h rbt par) (\<lambda>(h, rbt).
         ret (Inr (h, rbt, rbt))))))))))))))"

lemma rb_remove_color_left_unfold:
  "rb_remove_color_left h rbt par =
       obind (RBN_RIGHT h par) (\<lambda>tmp.
       obind (RBN_COLOR h tmp) (\<lambda>tc.
       obind (if tc = RB_RED then
                obind (rb_set_blackred h tmp par) (\<lambda>h.
                obind (rb_rotate_left h rbt par) (\<lambda>(h, rbt).
                obind (RBN_RIGHT h par) (\<lambda>tmp. ret (h, rbt, tmp))))
              else ret (h, rbt, tmp)) (\<lambda>(h, rbt, tmp).
       rb_remove_color_left_rest h rbt par tmp)))"
  unfolding rb_remove_color_left_def rb_remove_color_left_rest_def by (rule refl)

lemma rem_rot_L_ref:
  assumes w: "tree_at h rt (plug (LF p pc pd s # c) t)"
    and r: "rem_rot_L p pc pd s c = Some (LF p qc pd s1 # c1)"
  shows "\<exists>h1 rt1. RBN_RIGHT h (Some p) = ret (root_ptr s) \<and> RBN_COLOR h (root_ptr s) = ret (color_of s) \<and>
           (if color_of s = RB_RED then
                obind (rb_set_blackred h (root_ptr s) (Some p)) (\<lambda>h.
                obind (rb_rotate_left h rt (Some p)) (\<lambda>(h, rbt).
                obind (RBN_RIGHT h (Some p)) (\<lambda>tmp. ret (h, rbt, tmp))))
              else ret (h, rt, root_ptr s)) = ret (h1, rt1, root_ptr s1) \<and>
           tree_at h1 rt1 (plug (LF p qc pd s1 # c1) t)"
proof -
  from r obtain sl sa sc sd sr where s: "s = Node sl sa sc sd sr" by (cases s) auto
  have e1: "RBN_RIGHT h (Some p) = ret (root_ptr s)"
    using reads_tree(2) [where h = h and rt = rt and c = c and l = t and x = p and col = pc and d = pd and r = s] w
    by simp
  have e2: "RBN_COLOR h (root_ptr s) = ret (color_of s)"
    using reads_tree(4) [where h = h and rt = rt and c = "RF t p pc pd # c" and l = sl and x = sa
        and col = sc and d = sd and r = sr] w s
    by simp
  show ?thesis
  proof (cases "sc = RB_RED")
    case False
    with r s w e1 e2 show ?thesis by auto
  next
    case True
    from set_COLOR_tree [where h = h and rt = rt and c = "RF t p pc pd # c" and l = sl and x = sa
        and col = sc and d = sd and r = sr and col' = RB_BLACK] w s obtain h1 where
      s1: "set_COLOR h (Some sa) RB_BLACK = ret h1"
      and w1: "tree_at h1 rt (plug c (Node t p pc pd (Node sl sa RB_BLACK sd sr)))"
      by auto
    from set_COLOR_tree [where h = h1 and rt = rt and c = c and l = t and x = p
        and col = pc and d = pd and r = "Node sl sa RB_BLACK sd sr" and col' = RB_RED] w1 obtain h2 where
      s2: "set_COLOR h1 (Some p) RB_RED = ret h2"
      and w2: "tree_at h2 rt (plug c (Node t p RB_RED pd (Node sl sa RB_BLACK sd sr)))"
      by auto
    from rb_rotate_left_tree [where h = h2 and rt = rt and c = c and a = t and x = p and cx = RB_RED
        and dx = pd and b = sl and y = sa and cy = RB_BLACK and dy = sd and g = sr] w2 obtain h3 rt3 where
      s3: "rb_rotate_left h2 rt (Some p) = ret (h3, rt3)"
      and w3: "tree_at h3 rt3 (plug c (Node (Node t p RB_RED pd sl) sa RB_BLACK sd sr))"
      by auto
    have e3: "RBN_RIGHT h3 (Some p) = ret (root_ptr sl)"
      using reads_tree(2) [where h = h3 and rt = rt3 and c = "LF sa RB_BLACK sd sr # c" and l = t and x = p
          and col = RB_RED and d = pd and r = sl] w3
      by simp
    have "obind (rb_set_blackred h (root_ptr s) (Some p)) (\<lambda>h.
                obind (rb_rotate_left h rt (Some p)) (\<lambda>(h, rbt).
                obind (RBN_RIGHT h (Some p)) (\<lambda>tmp. ret (h, rbt, tmp)))) = ret (h3, rt3, root_ptr sl)"
      by (simp add: rb_set_blackred_def s s1 s2 s3 e3)
    with r s True w3 e1 e2 show ?thesis by auto
  qed
qed

lemma rem_fix_L_ref:
  assumes w: "tree_at h rt (plug (LF p pc pd s # c) t)"
    and r: "rem_fix (LF p pc pd s # c) t = Some res"
  shows "\<exists>h' rt'. (case res of
            Cont c' t' \<Rightarrow> rb_remove_color_left_rest h rt (Some p) (root_ptr s) =
                            ret (Inl (h', rt', ctx_ptr c', root_ptr t')) \<and> tree_at h' rt' (plug c' t')
          | Done T \<Rightarrow> rb_remove_color_left_rest h rt (Some p) (root_ptr s) =
                            ret (Inr (h', rt', rt')) \<and> tree_at h' rt' T)"
proof -
  from r obtain sl sa sc sd sr where s: "s = Node sl sa sc sd sr" by (cases s) auto
  note w' = w [unfolded s]
  have e1: "RBN_LEFT h (Some sa) = ret (root_ptr sl)" and e2: "RBN_RIGHT h (Some sa) = ret (root_ptr sr)"
    using reads_tree(1,2) [where h = h and rt = rt and c = "RF t p pc pd # c" and l = sl and x = sa
        and col = sc and d = sd and r = sr] w'
    by simp_all
  have e3: "null_or_black h (root_ptr sl) = ret (color_of sl = RB_BLACK)"
    using null_or_black_tree [where h = h and rt = rt and c = "LF sa sc sd sr # RF t p pc pd # c" and u = sl] w'
    by simp
  have e4: "null_or_black h (root_ptr sr) = ret (color_of sr = RB_BLACK)"
    using null_or_black_tree [where h = h and rt = rt and c = "RF sl sa sc sd # RF t p pc pd # c" and u = sr] w'
    by simp
  show ?thesis
  proof (cases "color_of sl = RB_BLACK \<and> color_of sr = RB_BLACK")
    case True
    from set_COLOR_tree [where h = h and rt = rt and c = "RF t p pc pd # c" and l = sl and x = sa
        and col = sc and d = sd and r = sr and col' = RB_RED] w' obtain h1 where
      s1: "set_COLOR h (Some sa) RB_RED = ret h1"
      and w1: "tree_at h1 rt (plug c (Node t p pc pd (Node sl sa RB_RED sd sr)))"
      by auto
    have e5: "RBN_PARENT h1 (Some p) = ret (ctx_ptr c)"
      using reads_tree(3) [where h = h1 and rt = rt and c = c and l = t and x = p
          and col = pc and d = pd and r = "Node sl sa RB_RED sd sr"] w1
      by simp
    have "rb_remove_color_left_rest h rt (Some p) (root_ptr s) = ret (Inl (h1, rt, ctx_ptr c, Some p))"
      using True by (simp add: rb_remove_color_left_rest_def s e1 e2 e3 e4 s1 e5)
    with r s True w1 show ?thesis by auto
  next
    case False
    note nb = False
    show ?thesis
    proof (cases "color_of sr = RB_BLACK")
      case True
      with nb obtain sll sla sld slr where sl: "sl = Node sll sla RB_RED sld slr"
        by (cases sl) auto
      note w'' = w' [unfolded sl]
      from set_COLOR_tree [where h = h and rt = rt and c = "LF sa sc sd sr # RF t p pc pd # c" and l = sll
          and x = sla and col = RB_RED and d = sld and r = slr and col' = RB_BLACK] w'' obtain h1 where
        s1: "set_COLOR h (Some sla) RB_BLACK = ret h1"
        and w1: "tree_at h1 rt (plug c (Node t p pc pd (Node (Node sll sla RB_BLACK sld slr) sa sc sd sr)))"
        by auto
      from set_COLOR_tree [where h = h1 and rt = rt and c = "RF t p pc pd # c" and l = "Node sll sla RB_BLACK sld slr"
          and x = sa and col = sc and d = sd and r = sr and col' = RB_RED] w1 obtain h2 where
        s2: "set_COLOR h1 (Some sa) RB_RED = ret h2"
        and w2: "tree_at h2 rt (plug c (Node t p pc pd (Node (Node sll sla RB_BLACK sld slr) sa RB_RED sd sr)))"
        by auto
      from rb_rotate_right_tree [where h = h2 and rt = rt and c = "RF t p pc pd # c" and g = sll and y = sla
          and cy = RB_BLACK and dy = sld and b = slr and x = sa and cx = RB_RED and dx = sd and a = sr] w2
      obtain h3 rt3 where
        s3: "rb_rotate_right h2 rt (Some sa) = ret (h3, rt3)"
        and w3: "tree_at h3 rt3 (plug c (Node t p pc pd (Node sll sla RB_BLACK sld (Node slr sa RB_RED sd sr))))"
        by auto
      have e5: "RBN_RIGHT h3 (Some p) = ret (Some sla)" and e6: "RBN_COLOR h3 (Some p) = ret pc"
        using reads_tree(2,4) [where h = h3 and rt = rt3 and c = c and l = t and x = p
            and col = pc and d = pd and r = "Node sll sla RB_BLACK sld (Node slr sa RB_RED sd sr)"] w3
        by simp_all
      from set_COLOR_tree [where h = h3 and rt = rt3 and c = "RF t p pc pd # c" and l = sll
          and x = sla and col = RB_BLACK and d = sld and r = "Node slr sa RB_RED sd sr" and col' = pc] w3 obtain h4 where
        s4: "set_COLOR h3 (Some sla) pc = ret h4"
        and w4: "tree_at h4 rt3 (plug c (Node t p pc pd (Node sll sla pc sld (Node slr sa RB_RED sd sr))))"
        by auto
      from set_COLOR_tree [where h = h4 and rt = rt3 and c = c and l = t
          and x = p and col = pc and d = pd and r = "Node sll sla pc sld (Node slr sa RB_RED sd sr)"
          and col' = RB_BLACK] w4 obtain h5 where
        s5: "set_COLOR h4 (Some p) RB_BLACK = ret h5"
        and w5: "tree_at h5 rt3 (plug c (Node t p RB_BLACK pd (Node sll sla pc sld (Node slr sa RB_RED sd sr))))"
        by auto
      have e7: "RBN_RIGHT h5 (Some sla) = ret (Some sa)"
        using reads_tree(2) [where h = h5 and rt = rt3 and c = "RF t p RB_BLACK pd # c" and l = sll and x = sla
            and col = pc and d = sld and r = "Node slr sa RB_RED sd sr"] w5
        by simp
      from set_COLOR_tree [where h = h5 and rt = rt3 and c = "RF sll sla pc sld # RF t p RB_BLACK pd # c" and l = slr
          and x = sa and col = RB_RED and d = sd and r = sr and col' = RB_BLACK] w5 obtain h6 where
        s6: "set_COLOR h5 (Some sa) RB_BLACK = ret h6"
        and w6: "tree_at h6 rt3 (plug c (Node t p RB_BLACK pd (Node sll sla pc sld (Node slr sa RB_BLACK sd sr))))"
        by auto
      from rb_rotate_left_tree [where h = h6 and rt = rt3 and c = c and a = t and x = p and cx = RB_BLACK
          and dx = pd and b = sll and y = sla and cy = pc and dy = sld and g = "Node slr sa RB_BLACK sd sr"] w6
      obtain h7 rt7 where
        s7: "rb_rotate_left h6 rt3 (Some p) = ret (h7, rt7)"
        and w7: "tree_at h7 rt7 (plug c (Node (Node t p RB_BLACK pd sll) sla pc sld (Node slr sa RB_BLACK sd sr)))"
        by auto
      have s1': "set_COLOR h (root_ptr sl) RB_BLACK = ret h1" and ne: "root_ptr sl \<noteq> None"
        using s1 sl by simp_all
      have "rb_remove_color_left_rest h rt (Some p) (root_ptr s) = ret (Inr (h7, rt7, rt7))"
        using True nb
        by (simp add: rb_remove_color_left_rest_def s e1 e2 e3 e4 s1' ne s2 s3 e5 e6 s4 s5 e7 s6 s7)
      with r s sl True nb w7 show ?thesis by auto
    next
      case False
      then obtain srl sra srd srr where sr: "sr = Node srl sra RB_RED srd srr"
        by (cases sr) auto
      have e6: "RBN_COLOR h (Some p) = ret pc"
        using reads_tree(4) [where h = h and rt = rt and c = c and l = t and x = p
            and col = pc and d = pd and r = "Node sl sa sc sd sr"] w'
        by simp
      from set_COLOR_tree [where h = h and rt = rt and c = "RF t p pc pd # c" and l = sl
          and x = sa and col = sc and d = sd and r = sr and col' = pc] w' obtain h4 where
        s4: "set_COLOR h (Some sa) pc = ret h4"
        and w4: "tree_at h4 rt (plug c (Node t p pc pd (Node sl sa pc sd sr)))"
        by auto
      from set_COLOR_tree [where h = h4 and rt = rt and c = c and l = t
          and x = p and col = pc and d = pd and r = "Node sl sa pc sd sr"
          and col' = RB_BLACK] w4 obtain h5 where
        s5: "set_COLOR h4 (Some p) RB_BLACK = ret h5"
        and w5: "tree_at h5 rt (plug c (Node t p RB_BLACK pd (Node sl sa pc sd sr)))"
        by auto
      have e7: "RBN_RIGHT h5 (Some sa) = ret (Some sra)"
        using reads_tree(2) [where h = h5 and rt = rt and c = "RF t p RB_BLACK pd # c" and l = sl and x = sa
            and col = pc and d = sd and r = sr] w5 sr
        by simp
      from set_COLOR_tree [where h = h5 and rt = rt and c = "RF sl sa pc sd # RF t p RB_BLACK pd # c" and l = srl
          and x = sra and col = RB_RED and d = srd and r = srr and col' = RB_BLACK] w5 sr obtain h6 where
        s6: "set_COLOR h5 (Some sra) RB_BLACK = ret h6"
        and w6: "tree_at h6 rt (plug c (Node t p RB_BLACK pd (Node sl sa pc sd (Node srl sra RB_BLACK srd srr))))"
        by auto
      from rb_rotate_left_tree [where h = h6 and rt = rt and c = c and a = t and x = p and cx = RB_BLACK
          and dx = pd and b = sl and y = sa and cy = pc and dy = sd and g = "Node srl sra RB_BLACK srd srr"] w6
      obtain h7 rt7 where
        s7: "rb_rotate_left h6 rt (Some p) = ret (h7, rt7)"
        and w7: "tree_at h7 rt7 (plug c (Node (Node t p RB_BLACK pd sl) sa pc sd (Node srl sra RB_BLACK srd srr)))"
        by auto
      have s6': "set_COLOR h5 (root_ptr sr) RB_BLACK = ret h6" and ne: "root_ptr sr \<noteq> None"
        and e7': "RBN_RIGHT h5 (Some sa) = ret (root_ptr sr)"
        using s6 e7 sr by simp_all
      have "rb_remove_color_left_rest h rt (Some p) (root_ptr s) = ret (Inr (h7, rt7, rt7))"
        using False nb
        by (simp add: rb_remove_color_left_rest_def s e1 e2 e3 e4 e6 s4 s5 e7' ne s6' s7)
      with r s sr False nb w7 show ?thesis by auto
    qed
  qed
qed

subsection \<open>The body of the loop on the store, right case\<close>

definition rb_remove_color_right_rest :: "rb_heap \<Rightarrow> addr option \<Rightarrow> addr option \<Rightarrow> addr option \<Rightarrow> rmc_step comp" where
  "rb_remove_color_right_rest h rbt par tmp =
       obind (RBN_LEFT h tmp) (\<lambda>tl.
       obind (null_or_black h tl) (\<lambda>lb.
       obind (if lb then obind (RBN_RIGHT h tmp) (\<lambda>tr. null_or_black h tr) else ret False) (\<lambda>both.
       if both then
         obind (set_COLOR h tmp RB_RED) (\<lambda>h.
         obind (RBN_PARENT h par) (\<lambda>gp.
         ret (Inl (h, rbt, gp, par))))
       else
         obind (RBN_LEFT h tmp) (\<lambda>tl.
         obind (null_or_black h tl) (\<lambda>lb.
         obind (if lb then
                  obind (RBN_RIGHT h tmp) (\<lambda>oright.
                  obind (if oright \<noteq> None then set_COLOR h oright RB_BLACK else ret h) (\<lambda>h.
                  obind (set_COLOR h tmp RB_RED) (\<lambda>h.
                  obind (rb_rotate_left h rbt tmp) (\<lambda>(h, rbt).
                  obind (RBN_LEFT h par) (\<lambda>tmp. ret (h, rbt, tmp))))))
                else ret (h, rbt, tmp)) (\<lambda>(h, rbt, tmp).
         obind (RBN_COLOR h par) (\<lambda>pc.
         obind (set_COLOR h tmp pc) (\<lambda>h.
         obind (set_COLOR h par RB_BLACK) (\<lambda>h.
         obind (RBN_LEFT h tmp) (\<lambda>tl.
         obind (if tl \<noteq> None then set_COLOR h tl RB_BLACK else ret h) (\<lambda>h.
         obind (rb_rotate_right h rbt par) (\<lambda>(h, rbt).
         ret (Inr (h, rbt, rbt))))))))))))))"

lemma rb_remove_color_right_unfold:
  "rb_remove_color_right h rbt par =
       obind (RBN_LEFT h par) (\<lambda>tmp.
       obind (RBN_COLOR h tmp) (\<lambda>tc.
       obind (if tc = RB_RED then
                obind (rb_set_blackred h tmp par) (\<lambda>h.
                obind (rb_rotate_right h rbt par) (\<lambda>(h, rbt).
                obind (RBN_LEFT h par) (\<lambda>tmp. ret (h, rbt, tmp))))
              else ret (h, rbt, tmp)) (\<lambda>(h, rbt, tmp).
       rb_remove_color_right_rest h rbt par tmp)))"
  unfolding rb_remove_color_right_def rb_remove_color_right_rest_def by (rule refl)

lemma rem_rot_R_ref:
  assumes w: "tree_at h rt (plug (RF s p pc pd # c) t)"
    and r: "rem_rot_R s p pc pd c = Some (RF s1 p qc pd # c1)"
  shows "\<exists>h1 rt1. RBN_LEFT h (Some p) = ret (root_ptr s) \<and> RBN_COLOR h (root_ptr s) = ret (color_of s) \<and>
           (if color_of s = RB_RED then
                obind (rb_set_blackred h (root_ptr s) (Some p)) (\<lambda>h.
                obind (rb_rotate_right h rt (Some p)) (\<lambda>(h, rbt).
                obind (RBN_LEFT h (Some p)) (\<lambda>tmp. ret (h, rbt, tmp))))
              else ret (h, rt, root_ptr s)) = ret (h1, rt1, root_ptr s1) \<and>
           tree_at h1 rt1 (plug (RF s1 p qc pd # c1) t)"
proof -
  from r obtain sl sa sc sd sr where s: "s = Node sr sa sc sd sl" by (cases s) auto
  have e1: "RBN_LEFT h (Some p) = ret (root_ptr s)"
    using reads_tree(1) [where h = h and rt = rt and c = c and r = t and x = p and col = pc and d = pd and l = s] w
    by simp
  have e2: "RBN_COLOR h (root_ptr s) = ret (color_of s)"
    using reads_tree(4) [where h = h and rt = rt and c = "LF p pc pd t # c" and r = sl and x = sa
        and col = sc and d = sd and l = sr] w s
    by simp
  show ?thesis
  proof (cases "sc = RB_RED")
    case False
    with r s w e1 e2 show ?thesis by auto
  next
    case True
    from set_COLOR_tree [where h = h and rt = rt and c = "LF p pc pd t # c" and r = sl and x = sa
        and col = sc and d = sd and l = sr and col' = RB_BLACK] w s obtain h1 where
      s1: "set_COLOR h (Some sa) RB_BLACK = ret h1"
      and w1: "tree_at h1 rt (plug c (Node (Node sr sa RB_BLACK sd sl) p pc pd t))"
      by auto
    from set_COLOR_tree [where h = h1 and rt = rt and c = c and r = t and x = p
        and col = pc and d = pd and l = "Node sr sa RB_BLACK sd sl" and col' = RB_RED] w1 obtain h2 where
      s2: "set_COLOR h1 (Some p) RB_RED = ret h2"
      and w2: "tree_at h2 rt (plug c (Node (Node sr sa RB_BLACK sd sl) p RB_RED pd t))"
      by auto
    from rb_rotate_right_tree [where h = h2 and rt = rt and c = c and a = t and x = p and cx = RB_RED
        and dx = pd and b = sl and y = sa and cy = RB_BLACK and dy = sd and g = sr] w2 obtain h3 rt3 where
      s3: "rb_rotate_right h2 rt (Some p) = ret (h3, rt3)"
      and w3: "tree_at h3 rt3 (plug c (Node sr sa RB_BLACK sd (Node sl p RB_RED pd t)))"
      by auto
    have e3: "RBN_LEFT h3 (Some p) = ret (root_ptr sl)"
      using reads_tree(1) [where h = h3 and rt = rt3 and c = "RF sr sa RB_BLACK sd # c" and r = t and x = p
          and col = RB_RED and d = pd and l = sl] w3
      by simp
    have "obind (rb_set_blackred h (root_ptr s) (Some p)) (\<lambda>h.
                obind (rb_rotate_right h rt (Some p)) (\<lambda>(h, rbt).
                obind (RBN_LEFT h (Some p)) (\<lambda>tmp. ret (h, rbt, tmp)))) = ret (h3, rt3, root_ptr sl)"
      by (simp add: rb_set_blackred_def s s1 s2 s3 e3)
    with r s True w3 e1 e2 show ?thesis by auto
  qed
qed

lemma rem_fix_R_ref:
  assumes w: "tree_at h rt (plug (RF s p pc pd # c) t)"
    and r: "rem_fix (RF s p pc pd # c) t = Some res"
  shows "\<exists>h' rt'. (case res of
            Cont c' t' \<Rightarrow> rb_remove_color_right_rest h rt (Some p) (root_ptr s) =
                            ret (Inl (h', rt', ctx_ptr c', root_ptr t')) \<and> tree_at h' rt' (plug c' t')
          | Done T \<Rightarrow> rb_remove_color_right_rest h rt (Some p) (root_ptr s) =
                            ret (Inr (h', rt', rt')) \<and> tree_at h' rt' T)"
proof -
  from r obtain sl sa sc sd sr where s: "s = Node sr sa sc sd sl" by (cases s) auto
  note w' = w [unfolded s]
  have e1: "RBN_RIGHT h (Some sa) = ret (root_ptr sl)" and e2: "RBN_LEFT h (Some sa) = ret (root_ptr sr)"
    using reads_tree(1,2) [where h = h and rt = rt and c = "LF p pc pd t # c" and r = sl and x = sa
        and col = sc and d = sd and l = sr] w'
    by simp_all
  have e3: "null_or_black h (root_ptr sl) = ret (color_of sl = RB_BLACK)"
    using null_or_black_tree [where h = h and rt = rt and c = "RF sr sa sc sd # LF p pc pd t # c" and u = sl] w'
    by simp
  have e4: "null_or_black h (root_ptr sr) = ret (color_of sr = RB_BLACK)"
    using null_or_black_tree [where h = h and rt = rt and c = "LF sa sc sd sl # LF p pc pd t # c" and u = sr] w'
    by simp
  show ?thesis
  proof (cases "color_of sl = RB_BLACK \<and> color_of sr = RB_BLACK")
    case True
    from set_COLOR_tree [where h = h and rt = rt and c = "LF p pc pd t # c" and r = sl and x = sa
        and col = sc and d = sd and l = sr and col' = RB_RED] w' obtain h1 where
      s1: "set_COLOR h (Some sa) RB_RED = ret h1"
      and w1: "tree_at h1 rt (plug c (Node (Node sr sa RB_RED sd sl) p pc pd t))"
      by auto
    have e5: "RBN_PARENT h1 (Some p) = ret (ctx_ptr c)"
      using reads_tree(3) [where h = h1 and rt = rt and c = c and r = t and x = p
          and col = pc and d = pd and l = "Node sr sa RB_RED sd sl"] w1
      by simp
    have "rb_remove_color_right_rest h rt (Some p) (root_ptr s) = ret (Inl (h1, rt, ctx_ptr c, Some p))"
      using True by (simp add: rb_remove_color_right_rest_def s e1 e2 e3 e4 s1 e5)
    with r s True w1 show ?thesis by auto
  next
    case False
    note nb = False
    show ?thesis
    proof (cases "color_of sr = RB_BLACK")
      case True
      with nb obtain sll sla sld slr where sl: "sl = Node slr sla RB_RED sld sll"
        by (cases sl) auto
      note w'' = w' [unfolded sl]
      from set_COLOR_tree [where h = h and rt = rt and c = "RF sr sa sc sd # LF p pc pd t # c" and r = sll
          and x = sla and col = RB_RED and d = sld and l = slr and col' = RB_BLACK] w'' obtain h1 where
        s1: "set_COLOR h (Some sla) RB_BLACK = ret h1"
        and w1: "tree_at h1 rt (plug c (Node (Node sr sa sc sd (Node slr sla RB_BLACK sld sll)) p pc pd t))"
        by auto
      from set_COLOR_tree [where h = h1 and rt = rt and c = "LF p pc pd t # c" and r = "Node slr sla RB_BLACK sld sll"
          and x = sa and col = sc and d = sd and l = sr and col' = RB_RED] w1 obtain h2 where
        s2: "set_COLOR h1 (Some sa) RB_RED = ret h2"
        and w2: "tree_at h2 rt (plug c (Node (Node sr sa RB_RED sd (Node slr sla RB_BLACK sld sll)) p pc pd t))"
        by auto
      from rb_rotate_left_tree [where h = h2 and rt = rt and c = "LF p pc pd t # c" and g = sll and y = sla
          and cy = RB_BLACK and dy = sld and b = slr and x = sa and cx = RB_RED and dx = sd and a = sr] w2
      obtain h3 rt3 where
        s3: "rb_rotate_left h2 rt (Some sa) = ret (h3, rt3)"
        and w3: "tree_at h3 rt3 (plug c (Node (Node (Node sr sa RB_RED sd slr) sla RB_BLACK sld sll) p pc pd t))"
        by auto
      have e5: "RBN_LEFT h3 (Some p) = ret (Some sla)" and e6: "RBN_COLOR h3 (Some p) = ret pc"
        using reads_tree(1,4) [where h = h3 and rt = rt3 and c = c and r = t and x = p
            and col = pc and d = pd and l = "Node (Node sr sa RB_RED sd slr) sla RB_BLACK sld sll"] w3
        by simp_all
      from set_COLOR_tree [where h = h3 and rt = rt3 and c = "LF p pc pd t # c" and r = sll
          and x = sla and col = RB_BLACK and d = sld and l = "Node sr sa RB_RED sd slr" and col' = pc] w3 obtain h4 where
        s4: "set_COLOR h3 (Some sla) pc = ret h4"
        and w4: "tree_at h4 rt3 (plug c (Node (Node (Node sr sa RB_RED sd slr) sla pc sld sll) p pc pd t))"
        by auto
      from set_COLOR_tree [where h = h4 and rt = rt3 and c = c and r = t
          and x = p and col = pc and d = pd and l = "Node (Node sr sa RB_RED sd slr) sla pc sld sll"
          and col' = RB_BLACK] w4 obtain h5 where
        s5: "set_COLOR h4 (Some p) RB_BLACK = ret h5"
        and w5: "tree_at h5 rt3 (plug c (Node (Node (Node sr sa RB_RED sd slr) sla pc sld sll) p RB_BLACK pd t))"
        by auto
      have e7: "RBN_LEFT h5 (Some sla) = ret (Some sa)"
        using reads_tree(1) [where h = h5 and rt = rt3 and c = "LF p RB_BLACK pd t # c" and r = sll and x = sla
            and col = pc and d = sld and l = "Node sr sa RB_RED sd slr"] w5
        by simp
      from set_COLOR_tree [where h = h5 and rt = rt3 and c = "LF sla pc sld sll # LF p RB_BLACK pd t # c" and r = slr
          and x = sa and col = RB_RED and d = sd and l = sr and col' = RB_BLACK] w5 obtain h6 where
        s6: "set_COLOR h5 (Some sa) RB_BLACK = ret h6"
        and w6: "tree_at h6 rt3 (plug c (Node (Node (Node sr sa RB_BLACK sd slr) sla pc sld sll) p RB_BLACK pd t))"
        by auto
      from rb_rotate_right_tree [where h = h6 and rt = rt3 and c = c and a = t and x = p and cx = RB_BLACK
          and dx = pd and b = sll and y = sla and cy = pc and dy = sld and g = "Node sr sa RB_BLACK sd slr"] w6
      obtain h7 rt7 where
        s7: "rb_rotate_right h6 rt3 (Some p) = ret (h7, rt7)"
        and w7: "tree_at h7 rt7 (plug c (Node (Node sr sa RB_BLACK sd slr) sla pc sld (Node sll p RB_BLACK pd t)))"
        by auto
      have s1': "set_COLOR h (root_ptr sl) RB_BLACK = ret h1" and ne: "root_ptr sl \<noteq> None"
        using s1 sl by simp_all
      have "rb_remove_color_right_rest h rt (Some p) (root_ptr s) = ret (Inr (h7, rt7, rt7))"
        using True nb
        by (simp add: rb_remove_color_right_rest_def s e1 e2 e3 e4 s1' ne s2 s3 e5 e6 s4 s5 e7 s6 s7)
      with r s sl True nb w7 show ?thesis by auto
    next
      case False
      then obtain srl sra srd srr where sr: "sr = Node srr sra RB_RED srd srl"
        by (cases sr) auto
      have e6: "RBN_COLOR h (Some p) = ret pc"
        using reads_tree(4) [where h = h and rt = rt and c = c and r = t and x = p
            and col = pc and d = pd and l = "Node sr sa sc sd sl"] w'
        by simp
      from set_COLOR_tree [where h = h and rt = rt and c = "LF p pc pd t # c" and r = sl
          and x = sa and col = sc and d = sd and l = sr and col' = pc] w' obtain h4 where
        s4: "set_COLOR h (Some sa) pc = ret h4"
        and w4: "tree_at h4 rt (plug c (Node (Node sr sa pc sd sl) p pc pd t))"
        by auto
      from set_COLOR_tree [where h = h4 and rt = rt and c = c and r = t
          and x = p and col = pc and d = pd and l = "Node sr sa pc sd sl"
          and col' = RB_BLACK] w4 obtain h5 where
        s5: "set_COLOR h4 (Some p) RB_BLACK = ret h5"
        and w5: "tree_at h5 rt (plug c (Node (Node sr sa pc sd sl) p RB_BLACK pd t))"
        by auto
      have e7: "RBN_LEFT h5 (Some sa) = ret (Some sra)"
        using reads_tree(1) [where h = h5 and rt = rt and c = "LF p RB_BLACK pd t # c" and r = sl and x = sa
            and col = pc and d = sd and l = sr] w5 sr
        by simp
      from set_COLOR_tree [where h = h5 and rt = rt and c = "LF sa pc sd sl # LF p RB_BLACK pd t # c" and r = srl
          and x = sra and col = RB_RED and d = srd and l = srr and col' = RB_BLACK] w5 sr obtain h6 where
        s6: "set_COLOR h5 (Some sra) RB_BLACK = ret h6"
        and w6: "tree_at h6 rt (plug c (Node (Node (Node srr sra RB_BLACK srd srl) sa pc sd sl) p RB_BLACK pd t))"
        by auto
      from rb_rotate_right_tree [where h = h6 and rt = rt and c = c and a = t and x = p and cx = RB_BLACK
          and dx = pd and b = sl and y = sa and cy = pc and dy = sd and g = "Node srr sra RB_BLACK srd srl"] w6
      obtain h7 rt7 where
        s7: "rb_rotate_right h6 rt (Some p) = ret (h7, rt7)"
        and w7: "tree_at h7 rt7 (plug c (Node (Node srr sra RB_BLACK srd srl) sa pc sd (Node sl p RB_BLACK pd t)))"
        by auto
      have s6': "set_COLOR h5 (root_ptr sr) RB_BLACK = ret h6" and ne: "root_ptr sr \<noteq> None"
        and e7': "RBN_LEFT h5 (Some sa) = ret (root_ptr sr)"
        using s6 e7 sr by simp_all
      have "rb_remove_color_right_rest h rt (Some p) (root_ptr s) = ret (Inr (h7, rt7, rt7))"
        using False nb
        by (simp add: rb_remove_color_right_rest_def s e1 e2 e3 e4 e6 s4 s5 e7' ne s6' s7)
      with r s sr False nb w7 show ?thesis by auto
    qed
  qed
qed

subsection \<open>The loop\<close>

lemma obind_if_step:
  assumes "obind m (\<lambda>pl. if P pl then f else g) = ret r"
  shows "obind m (\<lambda>pl. obind (if P pl then f else g) k) = k r"
  using assms by (auto simp: obind_def ret_def split: option.splits res.splits if_splits)

lemma rem_rot_L_shape:
  "rem_rot_L p pc pd s c = Some cc \<Longrightarrow> \<exists>qc s1 c1. cc = LF p qc pd s1 # c1"
  by (cases s) (auto split: if_splits)

lemma rem_rot_R_shape:
  "rem_rot_R s p pc pd c = Some cc \<Longrightarrow> \<exists>qc s1 c1. cc = RF s1 p qc pd # c1"
  by (cases s) (auto split: if_splits)

lemma root_ptr_neq:
  assumes "tree_at h rt (plug c (Node l x col d r))" and "l \<noteq> Leaf \<or> r \<noteq> Leaf"
  shows "root_ptr l \<noteq> root_ptr r"
proof -
  from assms(1) have "set (addrs l) \<inter> set (addrs r) = {}"
    by (auto simp: tree_at_def distinct_plug)
  with assms(2) show ?thesis
    by (cases l; cases r) auto
qed

lemma rem_body_ref:
  assumes w: "tree_at h rt (plug c t)" and b: "rem_body c t = Some res"
  shows "\<exists>h' rt'. (case res of
            Cont c' t' \<Rightarrow>
              obind (RBN_LEFT h (ctx_ptr c)) (\<lambda>pl.
                if pl = root_ptr t then rb_remove_color_left h rt (ctx_ptr c)
                else rb_remove_color_right h rt (ctx_ptr c)) =
              ret (Inl (h', rt', ctx_ptr c', root_ptr t')) \<and> tree_at h' rt' (plug c' t')
          | Done T \<Rightarrow>
              obind (RBN_LEFT h (ctx_ptr c)) (\<lambda>pl.
                if pl = root_ptr t then rb_remove_color_left h rt (ctx_ptr c)
                else rb_remove_color_right h rt (ctx_ptr c)) =
              ret (Inr (h', rt', rt')) \<and> tree_at h' rt' T)"
proof (cases c)
  case Nil
  with b show ?thesis by simp
next
  case (Cons f c0)
  show ?thesis
  proof (cases f)
    case (LF p pc pd s)
    note w' = w [unfolded Cons LF]
    from b obtain cc where rr: "rem_rot_L p pc pd s c0 = Some cc" and fx: "rem_fix cc t = Some res"
      by (auto simp: Cons LF split: option.splits)
    from rem_rot_L_shape [OF rr] obtain qc s1 c1 where cc: "cc = LF p qc pd s1 # c1" by blast
    have e0: "RBN_LEFT h (Some p) = ret (root_ptr t)"
      using reads_tree(1) [where h = h and rt = rt and c = c0 and l = t and x = p and col = pc and d = pd and r = s] w'
      by simp
    from rem_rot_L_ref [OF w' rr [unfolded cc]] obtain h1 rt1 where
      e1: "RBN_RIGHT h (Some p) = ret (root_ptr s)" and e2: "RBN_COLOR h (root_ptr s) = ret (color_of s)"
      and e3: "(if color_of s = RB_RED then
                obind (rb_set_blackred h (root_ptr s) (Some p)) (\<lambda>h.
                obind (rb_rotate_left h rt (Some p)) (\<lambda>(h, rbt).
                obind (RBN_RIGHT h (Some p)) (\<lambda>tmp. ret (h, rbt, tmp))))
              else ret (h, rt, root_ptr s)) = ret (h1, rt1, root_ptr s1)"
      and w1: "tree_at h1 rt1 (plug (LF p qc pd s1 # c1) t)"
      by blast
    have st: "obind (RBN_LEFT h (ctx_ptr c)) (\<lambda>pl.
                if pl = root_ptr t then rb_remove_color_left h rt (ctx_ptr c)
                else rb_remove_color_right h rt (ctx_ptr c)) =
              rb_remove_color_left_rest h1 rt1 (Some p) (root_ptr s1)"
      by (simp only: Cons LF ctx_ptr.simps e0 obind_ret if_True simp_thms
          rb_remove_color_left_unfold e1 e2 e3 prod.case)
    from rem_fix_L_ref [OF w1 fx [unfolded cc]] show ?thesis
      unfolding st .
  next
    case (RF s p pc pd)
    note w' = w [unfolded Cons RF]
    from b obtain cc where rr: "rem_rot_R s p pc pd c0 = Some cc" and fx: "rem_fix cc t = Some res"
      by (auto simp: Cons RF split: option.splits)
    from rem_rot_R_shape [OF rr] obtain qc s1 c1 where cc: "cc = RF s1 p qc pd # c1" by blast
    from rr have sn: "s \<noteq> Leaf" by auto
    have e0: "RBN_LEFT h (Some p) = ret (root_ptr s)"
      using reads_tree(1) [where h = h and rt = rt and c = c0 and l = s and x = p and col = pc and d = pd and r = t] w'
      by simp
    have ne: "root_ptr s \<noteq> root_ptr t"
      using root_ptr_neq [where h = h and rt = rt and c = c0 and l = s and x = p and col = pc and d = pd and r = t]
        w' sn by simp
    from rem_rot_R_ref [OF w' rr [unfolded cc]] obtain h1 rt1 where
      e1: "RBN_LEFT h (Some p) = ret (root_ptr s)" and e2: "RBN_COLOR h (root_ptr s) = ret (color_of s)"
      and e3: "(if color_of s = RB_RED then
                obind (rb_set_blackred h (root_ptr s) (Some p)) (\<lambda>h.
                obind (rb_rotate_right h rt (Some p)) (\<lambda>(h, rbt).
                obind (RBN_LEFT h (Some p)) (\<lambda>tmp. ret (h, rbt, tmp))))
              else ret (h, rt, root_ptr s)) = ret (h1, rt1, root_ptr s1)"
      and w1: "tree_at h1 rt1 (plug (RF s1 p qc pd # c1) t)"
      by blast
    have st: "obind (RBN_LEFT h (ctx_ptr c)) (\<lambda>pl.
                if pl = root_ptr t then rb_remove_color_left h rt (ctx_ptr c)
                else rb_remove_color_right h rt (ctx_ptr c)) =
              rb_remove_color_right_rest h1 rt1 (Some p) (root_ptr s1)"
      using ne
      by (simp only: Cons RF ctx_ptr.simps e0 obind_ret if_False simp_thms
          rb_remove_color_right_unfold e1 e2 e3 prod.case)
    from rem_fix_R_ref [OF w1 fx [unfolded cc]] show ?thesis
      unfolding st .
  qed
qed

lemma root_ptr_ctx:
  assumes "tree_at h rt (plug c t)" and "c \<noteq> []"
  shows "root_ptr t \<noteq> rt"
proof -
  from assms(1) have rt: "rt = root_ptr (plug c t)" and d: "distinct (addrs t @ addrs_c c)"
    by (auto simp: tree_at_def distinct_plug dest: rep_ptr)
  have "\<exists>x. root_ptr (plug c t) = Some x \<and> x \<in> set (addrs_c c)"
    using assms(2)
  proof (induction c arbitrary: t)
    case Nil
    then show ?case by simp
  next
    case (Cons f c)
    show ?case
    proof (cases f)
      case (LF a col e r)
      then show ?thesis
        using Cons.IH [of "Node t a col e r"] by (cases c) auto
    next
      case (RF l a col e)
      then show ?thesis
        using Cons.IH [of "Node l a col e t"] by (cases c) auto
    qed
  qed
  then obtain x where "rt = Some x" "x \<in> set (addrs_c c)" using rt by auto
  with d show ?thesis by (auto dest: root_ptr_in)
qed

lemma ctx_ptr_None: "(ctx_ptr c = None) = (c = [])"
  by (cases c rule: ctx_ptr.cases) auto

lemma rem_loop_ref:
  assumes "rem_inv c t" and "tree_at h rt (plug c t)"
  shows "\<exists>h' rt' c' t'. rb_remove_color_while h rt (ctx_ptr c) (root_ptr t) = ret (h', rt', root_ptr t') \<and>
           tree_at h' rt' (plug c' t') \<and> rbt_inv (plug c' (paint RB_BLACK t')) \<and>
           elems (plug c' t') = elems (plug c t)"
  using assms
proof (induction "rem_measure c t" arbitrary: c t h rt rule: less_induct)
  case less
  note i = less.prems(1) and w = less.prems(2)
  have e1: "null_or_black h (root_ptr t) = ret (color_of t = RB_BLACK)"
    using null_or_black_tree [OF w] .
  show ?case
  proof (cases "color_of t = RB_BLACK \<and> c \<noteq> []")
    case False
    have "rb_remove_color_while h rt (ctx_ptr c) (root_ptr t) = ret (h, rt, root_ptr t)"
      using False by (subst rb_remove_color_while.simps) (auto simp: e1 ctx_ptr_None)
    moreover have "rbt_inv (plug c (paint RB_BLACK t))"
    proof (cases "c = []")
      case True
      with i show ?thesis by (cases t) (auto simp: rbt_inv_def rem_inv_def)
    next
      case nc: False
      with False have "color_of t = RB_RED" by simp
      then have "bheight (paint RB_BLACK t) = Suc (bheight t)" "color_of (paint RB_BLACK t) = RB_BLACK"
        by (cases t; simp)+
      with i nc show ?thesis
        by (simp add: rbt_inv_def rem_inv_def inv_plug color_plug)
    qed
    ultimately show ?thesis using w by blast
  next
    case True
    then have tb: "color_of t = RB_BLACK" and nc: "c \<noteq> []" by simp_all
    have ne: "root_ptr t \<noteq> rt" using root_ptr_ctx [OF w nc] .
    have np: "ctx_ptr c \<noteq> None" using nc by (simp add: ctx_ptr_None)
    note bi = rem_body_inv [OF i tb nc]
    show ?thesis
    proof (cases "rem_body c t")
      case None
      with bi show ?thesis by simp
    next
      case (Some res)
      note br = rem_body_ref [OF w Some]
      show ?thesis
      proof (cases res)
        case (Done T)
        from br [unfolded Done] obtain h' rt' where
          st: "obind (RBN_LEFT h (ctx_ptr c)) (\<lambda>pl.
                if pl = root_ptr t then rb_remove_color_left h rt (ctx_ptr c)
                else rb_remove_color_right h rt (ctx_ptr c)) = ret (Inr (h', rt', rt'))"
          and w': "tree_at h' rt' T"
          by auto
        from bi [unfolded Some Done] have iT: "rbt_inv T" and el: "elems T = elems (plug c t)"
          by simp_all
        have rt': "rt' = root_ptr T" using w' by (auto simp: tree_at_def dest: rep_ptr)
        have "rb_remove_color_while h rt (ctx_ptr c) (root_ptr t) = ret (h', rt', root_ptr T)"
          apply (subst rb_remove_color_while.simps)
          apply (simp only: e1 obind_ret tb ne np simp_thms if_False if_True)
          apply (subst obind_if_step [OF st])
          apply (simp add: rt')
          done
        moreover have "rbt_inv (plug [] (paint RB_BLACK T))"
          using iT by (cases T) (auto simp: rbt_inv_def)
        ultimately show ?thesis using w' el
          by (intro exI [of _ h'] exI [of _ rt'] exI [of _ "[]"] exI [of _ T]) simp
      next
        case (Cont c' t')
        from br [unfolded Cont] obtain h' rt' where
          st: "obind (RBN_LEFT h (ctx_ptr c)) (\<lambda>pl.
                if pl = root_ptr t then rb_remove_color_left h rt (ctx_ptr c)
                else rb_remove_color_right h rt (ctx_ptr c)) = ret (Inl (h', rt', ctx_ptr c', root_ptr t'))"
          and w': "tree_at h' rt' (plug c' t')"
          by auto
        from bi [unfolded Some Cont] have i': "rem_inv c' t'" and m: "rem_measure c' t' < rem_measure c t"
          and el: "elems (plug c' t') = elems (plug c t)"
          by simp_all
        from less.hyps [OF m i' w'] obtain h2 rt2 c2 t2 where
          lp: "rb_remove_color_while h' rt' (ctx_ptr c') (root_ptr t') = ret (h2, rt2, root_ptr t2)"
          and r2: "tree_at h2 rt2 (plug c2 t2)" "rbt_inv (plug c2 (paint RB_BLACK t2))"
            "elems (plug c2 t2) = elems (plug c' t')"
          by blast
        have "rb_remove_color_while h rt (ctx_ptr c) (root_ptr t) = ret (h2, rt2, root_ptr t2)"
          apply (subst rb_remove_color_while.simps)
          apply (simp only: e1 obind_ret tb ne np simp_thms if_False if_True)
          apply (subst obind_if_step [OF st])
          apply (simp add: lp)
          done
        with r2 el show ?thesis by auto
      qed
    qed
  qed
qed

lemma rb_remove_color_ref:
  assumes "rem_inv c t" and "tree_at h rt (plug c t)"
  shows "\<exists>h' rt' T. rb_remove_color h rt (ctx_ptr c) (root_ptr t) = ret (h', rt') \<and> tree_at h' rt' T \<and>
           rbt_inv T \<and> elems T = elems (plug c t)"
proof -
  from rem_loop_ref [OF assms] obtain h1 rt1 c' t' where
    lp: "rb_remove_color_while h rt (ctx_ptr c) (root_ptr t) = ret (h1, rt1, root_ptr t')"
    and w1: "tree_at h1 rt1 (plug c' t')" and i1: "rbt_inv (plug c' (paint RB_BLACK t'))"
    and el: "elems (plug c' t') = elems (plug c t)"
    by blast
  have "\<exists>h2. (if root_ptr t' \<noteq> None then set_COLOR h1 (root_ptr t') RB_BLACK else ret h1) = ret h2 \<and>
          tree_at h2 rt1 (plug c' (paint RB_BLACK t'))"
  proof (cases t')
    case Leaf
    with w1 show ?thesis by simp
  next
    case (Node l x col d r)
    with set_COLOR_root [OF w1, of RB_BLACK] show ?thesis by auto
  qed
  then obtain h2 where
    s: "(if root_ptr t' \<noteq> None then set_COLOR h1 (root_ptr t') RB_BLACK else ret h1) = ret h2"
    and w2: "tree_at h2 rt1 (plug c' (paint RB_BLACK t'))"
    by blast
  have "rb_remove_color h rt (ctx_ptr c) (root_ptr t) = ret (h2, rt1)"
    by (simp only: rb_remove_color_def lp obind_ret prod.case s)
  moreover have "elems (plug c' (paint RB_BLACK t')) = elems (plug c t)"
    using el elems_plug_cong [of "paint RB_BLACK t'" t' c'] by simp
  ultimately show ?thesis using w2 i1 by blast
qed

text \<open>Taking a node that has at most one child out of the tree: the child takes its
  place.\<close>

lemma splice_ref:
  assumes w: "tree_at h rt (plug c (Node l x col d r))"
    and u: "l = Leaf \<and> u = r \<or> r = Leaf \<and> u = l"
  shows "\<exists>h1 h' rt'. (if root_ptr u \<noteq> None then set_PARENT h (root_ptr u) (ctx_ptr c) else ret h) = ret h1 \<and>
           rb_replace_child h1 rt (ctx_ptr c) (Some x) (root_ptr u) = ret (h', rt') \<and>
           tree_at h' rt' (plug c u) \<and> h' x = h x"
proof -
  define par where "par = ctx_ptr c"
  from w have rc: "repc h c (Some x) par rt"
    and r: "rep h par (Some x) (Node l x col d r)"
    and d: "distinct (addrs (Node l x col d r) @ addrs_c c)"
    by (simp_all add: tree_at_plug par_def)
  from r obtain nx where hx: "h x = Some nx"
    and rl: "rep h (Some x) (left nx) l" and rr: "rep h (Some x) (right nx) r"
    by (auto split: option.splits)
  have lx: "left nx = root_ptr l" and rx: "right nx = root_ptr r"
    using rl rr by (auto dest: rep_ptr)
  have ru: "rep h (Some x) (root_ptr u) u"
    using u rl rr lx rx by auto
  have du: "distinct (addrs u)" "x \<notin> set (addrs u)" "set (addrs u) \<inter> set (addrs_c c) = {}"
    "x \<notin> set (addrs_c c)" "distinct (addrs_c c)"
    using d u by auto
  have pnot: "par \<noteq> Some x" "\<And>z. z \<in> set (addrs u) \<Longrightarrow> par \<noteq> Some z"
    using du ctx_ptr_in [of c] by (auto simp: par_def)
  define h1 where "h1 = (case root_ptr u of None \<Rightarrow> h
      | Some a \<Rightarrow> (case h a of None \<Rightarrow> h | Some n \<Rightarrow> h(a \<mapsto> n\<lparr>parent := par\<rparr>)))"
  have ua: "root_ptr u = Some a \<Longrightarrow> a \<in> set (addrs u) \<and> h a \<noteq> None" for a
    using ru rep_alloc [OF ru, of a] by (auto dest: root_ptr_in)
  have s1: "(if root_ptr u \<noteq> None then set_PARENT h (root_ptr u) par else ret h) = ret h1"
    using ua by (cases "root_ptr u") (auto simp: h1_def set_PARENT_def)
  have f1: "h1 z = h z" if "Some z \<noteq> root_ptr u" for z
    using that by (auto simp: h1_def split: option.splits)
  have ru1: "rep h1 par (root_ptr u) u"
  proof (rule rep_reparent [OF ru du(1)])
    show "h1 z = h z" if "z \<in> set (addrs u)" "Some z \<noteq> root_ptr u" for z
      using that f1 by simp
    show "h1 a = Some (n\<lparr>parent := par\<rparr>)" if "root_ptr u = Some a" "h a = Some n" for a n
      using that by (simp add: h1_def)
  qed
  have rc1: "repc h1 c (Some x) par rt"
  proof (subst repc_frame [of _ _ h])
    show "h1 z = h z" if "z \<in> set (addrs_c c)" for z
    proof (rule f1)
      show "Some z \<noteq> root_ptr u"
        using that du(3) ua [of z] by (cases "root_ptr u") auto
    qed
    show "repc h c (Some x) par rt" by (rule rc)
  qed
  from repc_replace [OF rc1 du(4,5), where q = "root_ptr u"] obtain h' rt' where
    rp: "rb_replace_child h1 rt par (Some x) (root_ptr u) = ret (h', rt')"
    and rc': "repc h' c (root_ptr u) par rt'" and f': "\<forall>z. Some z \<noteq> par \<longrightarrow> h' z = h1 z"
    by blast
  have "rep h' par (root_ptr u) u"
  proof (subst rep_frame [of _ _ h1])
    show "h' z = h1 z" if "z \<in> set (addrs u)" for z
      using pnot(2) [OF that] f' by (metis (no_types))
    show "rep h1 par (root_ptr u) u" by (rule ru1)
  qed
  with rc' du have "tree_at h' rt' (plug c u)"
    by (auto simp: tree_at_plug par_def dest: rep_ptr)
  moreover have "h' x = h x"
    using f' pnot(1) f1 [of x] du(2) ua by (cases "root_ptr u") auto
  ultimately show ?thesis
    using s1 rp unfolding par_def by blast
qed

text \<open>Putting the node \<open>m\<close>, which is outside the tree, in the place of \<open>x\<close>.\<close>

lemma node_replace_ref:
  assumes w: "tree_at h rt (plug c (Node l x col d r))" and ln: "l \<noteq> Leaf"
    and hm: "h m = Some nm" and fresh: "m \<notin> set (addrs (plug c (Node l x col d r)))"
  shows "\<exists>h3 h4 h5 h6 rt'. RBN_COPY h (Some m) (Some x) = ret h3 \<and>
           RBN_PARENT h3 (Some x) = ret (ctx_ptr c) \<and>
           rb_replace_child h3 rt (ctx_ptr c) (Some x) (Some m) = ret (h4, rt') \<and>
           RBN_LEFT h4 (Some x) = ret (root_ptr l) \<and>
           set_PARENT h4 (root_ptr l) (Some m) = ret h5 \<and>
           RBN_RIGHT h5 (Some x) = ret (root_ptr r) \<and>
           (if root_ptr r \<noteq> None then set_PARENT h5 (root_ptr r) (Some m) else ret h5) = ret h6 \<and>
           tree_at h6 rt' (plug c (Node l m col (dnode nm) r))"
proof -
  define par where "par = ctx_ptr c"
  from w have rc: "repc h c (Some x) par rt"
    and r: "rep h par (Some x) (Node l x col d r)"
    and d: "distinct (addrs (Node l x col d r) @ addrs_c c)"
    by (simp_all add: tree_at_plug par_def)
  from r obtain nx where hx: "h x = Some nx" and px: "parent nx = par" and cx: "color nx = col"
    and rl: "rep h (Some x) (left nx) l" and rr: "rep h (Some x) (right nx) r"
    by (auto split: option.splits)
  have lx: "left nx = root_ptr l" and rx: "right nx = root_ptr r"
    using rl rr by (auto dest: rep_ptr)
  from ln obtain la where la: "root_ptr l = Some la" by (cases l) auto
  have fm: "m \<noteq> x" "m \<notin> set (addrs l)" "m \<notin> set (addrs r)" "m \<notin> set (addrs_c c)"
    using fresh by (auto simp: addrs_plug)
  have pnot: "par \<noteq> Some x" "par \<noteq> Some m" "\<And>z. z \<in> set (addrs l) \<union> set (addrs r) \<Longrightarrow> par \<noteq> Some z"
    using d fm ctx_ptr_in [of c] by (auto simp: par_def)
  have lal: "la \<in> set (addrs l)" "h la \<noteq> None"
    using la rl [unfolded lx] rep_alloc [OF rl, of la] by (auto dest: root_ptr_in)
  have ra: "root_ptr r = Some a \<Longrightarrow> a \<in> set (addrs r) \<and> h a \<noteq> None" for a
    using rr [unfolded rx] rep_alloc [OF rr, of a] by (auto dest: root_ptr_in)
  define h3 where "h3 = h(m \<mapsto> nm\<lparr>parent := par, left := root_ptr l, right := root_ptr r, color := col\<rparr>)"
  have e3: "RBN_COPY h (Some m) (Some x) = ret h3"
    using fm by (simp add: RBN_COPY_def acc_defs hx hm px lx rx cx h3_def)
  have e3p: "RBN_PARENT h3 (Some x) = ret par"
    using fm by (simp add: RBN_PARENT_def h3_def hx px)
  have rc3: "repc h3 c (Some x) par rt"
    using rc fm by (subst repc_frame [of _ _ h]) (auto simp: h3_def)
  have dc: "x \<notin> set (addrs_c c)" "distinct (addrs_c c)" using d by auto
  from repc_replace [OF rc3 dc, where q = "Some m"] obtain h4 rt' where
    rp: "rb_replace_child h3 rt par (Some x) (Some m) = ret (h4, rt')"
    and rc4: "repc h4 c (Some m) par rt'" and f4: "\<forall>z. Some z \<noteq> par \<longrightarrow> h4 z = h3 z"
    by blast
  have h4x: "h4 x = Some nx" using f4 pnot fm by (simp add: h3_def hx)
  from lal obtain nl where hl: "h la = Some nl" by auto
  have lam: "la \<noteq> m" "la \<noteq> x" "Some la \<noteq> par" using lal fm d pnot by auto
  have h4l: "h4 la = Some nl" using f4 lam by (simp add: h3_def hl)
  define h5 where "h5 = h4(la \<mapsto> nl\<lparr>parent := Some m\<rparr>)"
  define h6 where "h6 = (case root_ptr r of None \<Rightarrow> h5
      | Some a \<Rightarrow> (case h5 a of None \<Rightarrow> h5 | Some n \<Rightarrow> h5(a \<mapsto> n\<lparr>parent := Some m\<rparr>)))"
  have e4: "RBN_LEFT h4 (Some x) = ret (root_ptr l)"
    by (simp add: RBN_LEFT_def h4x lx)
  have e5: "set_PARENT h4 (root_ptr l) (Some m) = ret h5"
    by (simp add: set_PARENT_def la h4l h5_def)
  have e5r: "RBN_RIGHT h5 (Some x) = ret (root_ptr r)"
    using lam by (simp add: RBN_RIGHT_def h5_def h4x rx)
  have h5a: "h5 a = h a" if "root_ptr r = Some a" for a
  proof -
    from ra [OF that] have ar: "a \<in> set (addrs r)" by simp
    have "a \<noteq> m" "a \<noteq> la" "Some a \<noteq> par"
      using ar fm lal d pnot(3) [of a] by auto
    then show ?thesis using f4 by (simp add: h5_def h3_def)
  qed
  have e6: "(if root_ptr r \<noteq> None then set_PARENT h5 (root_ptr r) (Some m) else ret h5) = ret h6"
    using ra h5a by (cases "root_ptr r") (auto simp: h6_def set_PARENT_def)
  have f6: "h6 z = h z" if "z \<noteq> m" "Some z \<noteq> root_ptr l" "Some z \<noteq> root_ptr r" "Some z \<noteq> par" for z
    using that f4 by (auto simp: h6_def h5_def h3_def la split: option.splits)
  have h6m: "h6 m = Some (nm\<lparr>parent := par, left := root_ptr l, right := root_ptr r, color := col\<rparr>)"
    using fm lam ra f4 pnot by (auto simp: h6_def h5_def h3_def split: option.splits)
  have "repc h6 c (Some m) par rt'"
  proof (subst repc_frame [of _ _ h4])
    show "h6 z = h4 z" if "z \<in> set (addrs_c c)" for z
      using that d lal ra by (auto simp: h6_def h5_def split: option.splits)
    show "repc h4 c (Some m) par rt'" by (rule rc4)
  qed
  moreover have "rep h6 (Some m) (root_ptr l) l"
  proof (rule rep_reparent [OF rl [unfolded lx]])
    show "distinct (addrs l)" using d by simp
    show "h6 z = h z" if "z \<in> set (addrs l)" "Some z \<noteq> root_ptr l" for z
      using that d fm pnot ra by (intro f6) (auto dest: ra)
    show "h6 z = Some (n\<lparr>parent := Some m\<rparr>)" if "root_ptr l = Some z" "h z = Some n" for z n
      using that la hl ra lal d by (auto simp: h6_def h5_def split: option.splits)
  qed
  moreover have "rep h6 (Some m) (root_ptr r) r"
  proof (rule rep_reparent [OF rr [unfolded rx]])
    show "distinct (addrs r)" using d by simp
    show "h6 z = h z" if "z \<in> set (addrs r)" "Some z \<noteq> root_ptr r" for z
      using that d fm pnot lal la by (intro f6) auto
    show "h6 z = Some (n\<lparr>parent := Some m\<rparr>)" if "root_ptr r = Some z" "h z = Some n" for z n
      using that h5a [of z] by (simp add: h6_def)
  qed
  ultimately have "tree_at h6 rt' (plug c (Node l m col (dnode nm) r))"
    using d fm h6m by (simp add: tree_at_plug par_def)
  with e3 e3p rp e4 e5 e5r e6 show ?thesis
    unfolding par_def by blast
qed

section \<open>Cells stay allocated\<close>

text \<open>No operation of the tree engine allocates or frees a cell.\<close>

definition keeps :: "rb_heap \<Rightarrow> rb_heap \<Rightarrow> bool" where
  "keeps h h' = (dom h' = dom h)"

lemma wr_dom: "wr h p u = ret h' \<Longrightarrow> keeps h h'"
  unfolding keeps_def by (cases p; cases "h (the p)") (auto simp: wr_def split: if_splits)

lemma set_dom:
  "set_LEFT h p v = ret h' \<Longrightarrow> keeps h h'"
  "set_RIGHT h p v = ret h' \<Longrightarrow> keeps h h'"
  "set_PARENT h p v = ret h' \<Longrightarrow> keeps h h'"
  "set_COLOR h p k = ret h' \<Longrightarrow> keeps h h'"
  by (simp_all add: set_LEFT_def set_RIGHT_def set_PARENT_def set_COLOR_def wr_dom)

lemma rb_set_blackred_dom: "rb_set_blackred h a b = ret h' \<Longrightarrow> keeps h h'"
  unfolding rb_set_blackred_def
  apply (auto elim!: obind_retE dest!: set_dom)
  apply (simp_all add: keeps_def)
  done

lemma rb_rotate_left_dom: "rb_rotate_left h rt p = ret (h', rt') \<Longrightarrow> keeps h h'"
  unfolding rb_rotate_left_def
  apply (auto elim!: obind_retE dest!: set_dom split: if_splits)
  apply (simp_all add: keeps_def)
  done

lemma rb_rotate_right_dom: "rb_rotate_right h rt p = ret (h', rt') \<Longrightarrow> keeps h h'"
  unfolding rb_rotate_right_def
  apply (auto elim!: obind_retE dest!: set_dom split: if_splits)
  apply (simp_all add: keeps_def)
  done

lemma rb_remove_color_left_dom:
  "rb_remove_color_left h rt p = ret r \<Longrightarrow>
     (case r of Inl (h', _) \<Rightarrow> keeps h h' | Inr (h', _) \<Rightarrow> keeps h h')"
  unfolding rb_remove_color_left_def
  apply (auto elim!: obind_retE dest!: set_dom rb_set_blackred_dom rb_rotate_left_dom rb_rotate_right_dom
      split: if_splits)
  apply (simp_all add: keeps_def)
  done

lemma rb_remove_color_right_dom:
  "rb_remove_color_right h rt p = ret r \<Longrightarrow>
     (case r of Inl (h', _) \<Rightarrow> keeps h h' | Inr (h', _) \<Rightarrow> keeps h h')"
  unfolding rb_remove_color_right_def
  apply (auto elim!: obind_retE dest!: set_dom rb_set_blackred_dom rb_rotate_left_dom rb_rotate_right_dom
      split: if_splits)
  apply (simp_all add: keeps_def)
  done

lemma rb_remove_color_while_dom:
  assumes "rb_remove_color_while h rt par rbn = ret (h', rt', q)"
  shows "keeps h h'"
proof -
  have "\<forall>h' rt' q. y = Ret (h', rt', q) \<longrightarrow> keeps h h'"
    if "rb_remove_color_while h rt par rbn = Some y" for y
  proof (rule rb_remove_color_while.raw_induct
      [where P = "\<lambda>h rt par rbn y. \<forall>h' rt' q. y = Ret (h', rt', q) \<longrightarrow> keeps h h'", OF _ that],
      goal_cases)
    case (1 f h rbt par rbn ha)
    show ?case
    proof (intro allI impI)
      fix h' rt' q
      assume "ha = Ret (h', rt', q)"
      with 1(2) have e: "obind (null_or_black h rbn)
          (\<lambda>nb. if \<not> (nb \<and> rbn \<noteq> rbt \<and> par \<noteq> None) then ret (h, rbt, rbn)
            else obind (RBN_LEFT h par)
                  (\<lambda>pl. obind (if pl = rbn then rb_remove_color_left h rbt par
                          else rb_remove_color_right h rbt par)
                         (\<lambda>r. case r of Inl (h, rbt, par, rbn) \<Rightarrow> f h rbt par rbn
                              | Inr x \<Rightarrow> ret x))) = ret (h', rt', q)"
        by (simp add: ret_def)
      from e obtain nb where
        e1: "(if \<not> (nb \<and> rbn \<noteq> rbt \<and> par \<noteq> None) then ret (h, rbt, rbn)
            else obind (RBN_LEFT h par)
                  (\<lambda>pl. obind (if pl = rbn then rb_remove_color_left h rbt par
                          else rb_remove_color_right h rbt par)
                         (\<lambda>r. case r of Inl (h, rbt, par, rbn) \<Rightarrow> f h rbt par rbn
                              | Inr x \<Rightarrow> ret x))) = ret (h', rt', q)"
        by (rule obind_retE)
      show "keeps h h'"
      proof (cases "nb \<and> rbn \<noteq> rbt \<and> par \<noteq> None")
        case False
        with e1 show ?thesis by (auto simp: keeps_def)
      next
        case True
        with e1 obtain pl r where
          st: "(if pl = rbn then rb_remove_color_left h rbt par
                          else rb_remove_color_right h rbt par) = ret r"
          and k: "(case r of Inl (h, rbt, par, rbn) \<Rightarrow> f h rbt par rbn | Inr x \<Rightarrow> ret x) = ret (h', rt', q)"
          by (auto elim!: obind_retE)
        from st have kr: "case r of Inl (h1, _) \<Rightarrow> keeps h h1 | Inr (h1, _) \<Rightarrow> keeps h h1"
          using rb_remove_color_left_dom [of h rbt par r] rb_remove_color_right_dom [of h rbt par r]
          by (auto split: if_splits)
        show ?thesis
        proof (cases r)
          case (Inl a)
          obtain h1 rt1 p1 r1 where a: "a = (h1, rt1, p1, r1)" by (cases a) auto
          from k Inl a have "f h1 rt1 p1 r1 = Some (Ret (h', rt', q))" by (simp add: ret_def)
          from 1(1) [OF this] have "keeps h1 h'" by simp
          moreover from kr Inl a have "keeps h h1" by simp
          ultimately show ?thesis by (simp add: keeps_def)
        next
          case (Inr b)
          with k kr show ?thesis by auto
        qed
      qed
    qed
  qed
  from this [of "Ret (h', rt', q)"] assms show ?thesis by (simp add: ret_def)
qed

lemma rb_remove_color_dom: "rb_remove_color h rt par rbn = ret (h', rt') \<Longrightarrow> keeps h h'"
  unfolding rb_remove_color_def
  apply (auto elim!: obind_retE dest!: set_dom rb_remove_color_while_dom split: if_splits)
  apply (simp_all add: keeps_def)
  done

lemma rb_replace_child_dom: "rb_replace_child h rt par a b = ret (h', rt') \<Longrightarrow> keeps h h'"
  unfolding rb_replace_child_def
  apply (auto elim!: obind_retE dest!: set_dom split: if_splits)
  apply (simp_all add: keeps_def)
  done

lemma RBN_COPY_dom: "RBN_COPY h a b = ret h' \<Longrightarrow> keeps h h'"
  unfolding RBN_COPY_def
  apply (auto elim!: obind_retE dest!: set_dom)
  apply (simp_all add: keeps_def)
  done

lemma rb_remove_two_dom: "rb_remove_two h rt p = ret (h', x) \<Longrightarrow> keeps h h'"
  unfolding rb_remove_two_def Let_def
  apply (auto elim!: obind_retE dest!: set_dom rb_replace_child_dom RBN_COPY_dom split: if_splits)
  apply (simp_all add: keeps_def)
  done

lemma rb_remove_dom: "rb_remove h rt p = ret (h', x) \<Longrightarrow> keeps h h'"
  unfolding rb_remove_def
  apply (auto elim!: obind_retE dest!: set_dom rb_replace_child_dom rb_remove_two_dom rb_remove_color_dom
      split: if_splits)
  apply (simp_all add: keeps_def)
  done

section \<open>\<open>rb_remove\<close>\<close>

fun cbefore :: "frame list \<Rightarrow> (addr \<times> addr option) list" where
  "cbefore [] = []"
| "cbefore (LF a c d r # fs) = cbefore fs"
| "cbefore (RF l a c d # fs) = cbefore fs @ elems l @ [(a, d)]"

fun cafter :: "frame list \<Rightarrow> (addr \<times> addr option) list" where
  "cafter [] = []"
| "cafter (LF a c d r # fs) = (a, d) # elems r @ cafter fs"
| "cafter (RF l a c d # fs) = cafter fs"

lemma elems_plug: "elems (plug c t) = cbefore c @ elems t @ cafter c"
proof (induction c arbitrary: t)
  case Nil
  then show ?case by simp
next
  case (Cons f c)
  show ?case by (cases f) (simp_all add: Cons.IH)
qed

lemma cbefore_append: "cbefore (c @ c') = cbefore c' @ cbefore c"
proof (induction c)
  case Nil
  then show ?case by simp
next
  case (Cons f c)
  then show ?case by (cases f) simp_all
qed

lemma cafter_append: "cafter (c @ c') = cafter c @ cafter c'"
proof (induction c)
  case Nil
  then show ?case by simp
next
  case (Cons f c)
  then show ?case by (cases f) simp_all
qed

lemma plug_append: "plug (c @ c') t = plug c' (plug c t)"
proof (induction c arbitrary: t)
  case Nil
  then show ?case by simp
next
  case (Cons f c)
  show ?case by (cases f) (simp_all add: Cons.IH)
qed

lemma ctx_ptr_append: "ctx_ptr (c @ c') = (if c = [] then ctx_ptr c' else ctx_ptr c)"
  by (cases c rule: ctx_ptr.cases) simp_all

text \<open>The leftmost node of a subtree and the path from it up to the root of the
  subtree.\<close>

fun min_path :: "rbtree \<Rightarrow> frame list" where
  "min_path (Node (Node ll a ca da lr) x c d r) = min_path (Node ll a ca da lr) @ [LF x c d r]"
| "min_path t = []"

fun min_node :: "rbtree \<Rightarrow> rbtree" where
  "min_node (Node (Node ll a ca da lr) x c d r) = min_node (Node ll a ca da lr)"
| "min_node t = t"

lemma plug_min: "plug (min_path t) (min_node t) = t"
  by (induction t rule: min_path.induct) (simp_all add: plug_append)

lemma min_node_shape: "t \<noteq> Leaf \<Longrightarrow> \<exists>m mc md mr. min_node t = Node Leaf m mc md mr"
  by (induction t rule: min_node.induct) auto

lemma cbefore_min: "cbefore (min_path t) = []"
  by (induction t rule: min_path.induct) (simp_all add: cbefore_append)

lemma min_path_addrs: "set (addrs_c (min_path t)) \<subseteq> set (addrs t)"
proof -
  have "set (addrs (plug (min_path t) (min_node t))) = set (addrs t)"
    by (simp add: plug_min)
  then show ?thesis by (auto simp: addrs_plug)
qed

lemma rb_remove_while_ref:
  "rep h p q t \<Longrightarrow> t \<noteq> Leaf \<Longrightarrow> rb_remove_while h q = ret (root_ptr (min_node t))"
proof (induction t arbitrary: p q rule: min_node.induct, goal_cases)
  case (1 ll a ca da lr x c d r p q)
  from 1(2) obtain n where q: "q = Some x" and hx: "h x = Some n"
    and rl: "rep h (Some x) (left n) (Node ll a ca da lr)"
    by (auto split: option.splits)
  from rl have l: "left n = Some a" by (auto dest: rep_ptr)
  have "rb_remove_while h (Some a) = ret (root_ptr (min_node (Node ll a ca da lr)))"
    using 1(1) [OF rl [unfolded l]] by simp
  then show ?case
    by (subst rb_remove_while.simps) (simp add: q RBN_LEFT_def hx l)
next
  case (2 p q)
  then show ?case by simp
next
  case (3 x c d r p q)
  from 3(1) obtain n where q: "q = Some x" and hx: "h x = Some n" and l: "left n = None"
    by (auto split: option.splits)
  show ?case
    by (subst rb_remove_while.simps) (simp add: q RBN_LEFT_def hx l)
qed

text \<open>Where \<open>rb_remove\<close> leaves a hole: the path to it, the subtree in it, and the colour
  of the node that was taken out of the tree there.\<close>

fun rem_pos :: "frame list \<Rightarrow> rbtree \<Rightarrow> frame list \<times> rbtree \<times> color" where
  "rem_pos c Leaf = (c, Leaf, RB_BLACK)"
| "rem_pos c (Node l x k d r) =
     (if l = Leaf then (c, r, k)
      else if r = Leaf then (c, l, k)
      else (case min_node r of
              Leaf \<Rightarrow> (c, Leaf, k)
            | Node ml m mk md mr \<Rightarrow> (min_path r @ RF l m k md # c, mr, mk)))"

lemma splice_inv:
  assumes "rbt_inv (plug c (Node l x k d r))" and "l = Leaf \<and> u = r \<or> r = Leaf \<and> u = l"
  shows "if k = RB_BLACK then rem_inv c u else rbt_inv (plug c u)"
proof -
  from assms(1) have i: "invc (Node l x k d r)" "invh (Node l x k d r)"
    "cinv c (bheight (Node l x k d r))" "ctx_color c = RB_RED \<longrightarrow> k = RB_BLACK"
    and col: "if c = [] then k = RB_BLACK else fcolor (last c) = RB_BLACK"
    using inv_plug [of c "Node l x k d r"] color_plug [of c "Node l x k d r"]
    by (auto simp: rbt_inv_def split: if_splits)
  have bh: "bheight u = 0" "bheight l = 0" using i(2) assms(2) by auto
  show ?thesis
  proof (cases k)
    case RB_BLACK
    with i col assms(2) bh show ?thesis
      by (auto simp: rem_inv_def invc_paint)
  next
    case RB_RED
    have "color_of u = RB_BLACK" using i(1) RB_RED assms(2) by auto
    with bh have u: "u = Leaf" by (cases u) (auto split: if_splits)
    have "c \<noteq> []" using col RB_RED by auto
    with i col RB_RED bh show ?thesis
      by (auto simp: u rbt_inv_def color_plug inv_plug)
  qed
qed

lemma rem_pos_inv:
  assumes "rbt_inv (plug c (Node l x k d r))" and "rem_pos c (Node l x k d r) = (c', u, k')"
  shows "if k' = RB_BLACK then rem_inv c' u else rbt_inv (plug c' u)"
proof (cases "l = Leaf \<or> r = Leaf")
  case True
  with assms(2) have "c' = c" "k' = k" "l = Leaf \<and> u = r \<or> r = Leaf \<and> u = l"
    by (auto split: if_splits)
  with splice_inv [OF assms(1), of u] show ?thesis by simp
next
  case False
  then obtain m mk md mr where mn: "min_node r = Node Leaf m mk md mr"
    using min_node_shape [of r] by auto
  with assms(2) False have e: "c' = min_path r @ RF l m k md # c" "u = mr" "k' = mk"
    by auto
  have "rbt_inv (plug c (Node l m k md r))"
    using assms(1) inv_plug [of c "Node l x k d r"] inv_plug [of c "Node l m k md r"]
      color_plug [of c "Node l x k d r"] color_plug [of c "Node l m k md r"]
    by (auto simp: rbt_inv_def)
  also have "plug c (Node l m k md r) = plug c' (Node Leaf m mk md mr)"
    using plug_min [of r] by (simp add: e plug_append mn)
  finally show ?thesis
    using splice_inv [of c' Leaf m mk md mr u] e by simp
qed

lemma rem_pos_elems:
  assumes "rem_pos c (Node l x k d r) = (c', u, k')"
  shows "elems (plug c' u) = cbefore c @ elems l @ elems r @ cafter c"
proof (cases "l = Leaf \<or> r = Leaf")
  case True
  with assms show ?thesis
    by (auto simp: elems_plug split: if_splits)
next
  case False
  then obtain m mk md mr where mn: "min_node r = Node Leaf m mk md mr"
    using min_node_shape [of r] by auto
  with assms False have e: "c' = min_path r @ RF l m k md # c" "u = mr" "k' = mk"
    by auto
  have "elems r = elems (plug (min_path r) (min_node r))"
    by (simp add: plug_min)
  also have "\<dots> = (m, md) # elems mr @ cafter (min_path r)"
    by (simp add: elems_plug mn cbefore_min)
  finally show ?thesis
    by (simp add: e elems_plug cbefore_append cafter_append cbefore_min)
qed

lemma root_ptr_None: "(root_ptr t = None) = (t = Leaf)"
  by (cases t) auto

lemma rb_remove_two_ref:
  assumes w: "tree_at h rt (plug c (Node l x k d r))" and ln: "l \<noteq> Leaf" and rn: "r \<noteq> Leaf"
    and rp: "rem_pos c (Node l x k d r) = (c', u, k')"
  shows "\<exists>h' rt'. rb_remove_two h rt (Some x) = ret (h', rt', ctx_ptr c', root_ptr u, k') \<and>
           tree_at h' rt' (plug c' u)"
proof -
  obtain m mk md mr where mn: "min_node r = Node Leaf m mk md mr"
    using min_node_shape [OF rn] by auto
  define gs where "gs = min_path r"
  define C where "C = gs @ RF l x k d # c"
  from rp ln rn mn have e: "c' = gs @ RF l m k md # c" "u = mr" "k' = mk"
    by (auto simp: gs_def)
  have pl: "plug C (Node Leaf m mk md mr) = plug c (Node l x k d r)"
    using plug_min [of r] by (simp add: C_def plug_append mn gs_def)
  have w': "tree_at h rt (plug C (Node Leaf m mk md mr))"
    using w pl by simp
  have e1: "RBN_RIGHT h (Some x) = ret (root_ptr r)"
    using reads_tree(2) [OF w] .
  from w have "rep h (ctx_ptr c) (Some x) (Node l x k d r)"
    by (simp add: tree_at_plug)
  then obtain n where "h x = Some n" and rr: "rep h (Some x) (right n) r"
    by (auto split: option.splits)
  from rr have "right n = root_ptr r" by (rule rep_ptr)
  with rr have "rep h (Some x) (root_ptr r) r" by simp
  from rb_remove_while_ref [OF this rn]
  have e2: "rb_remove_while h (root_ptr r) = ret (Some m)"
    by (simp add: mn)
  have e3: "RBN_RIGHT h (Some m) = ret (root_ptr mr)"
    and e4: "RBN_PARENT h (Some m) = ret (ctx_ptr C)"
    and e5: "RBN_COLOR h (Some m) = ret mk"
    using reads_tree [OF w'] by simp_all
  from splice_ref [OF w', where u = mr] obtain h1 h2 rt2 where
    s1: "(if root_ptr mr \<noteq> None then set_PARENT h (root_ptr mr) (ctx_ptr C) else ret h) = ret h1"
    and s2: "rb_replace_child h1 rt (ctx_ptr C) (Some m) (root_ptr mr) = ret (h2, rt2)"
    and w2: "tree_at h2 rt2 (plug C mr)" and hm: "h2 m = h m"
    by auto
  from w' obtain nm where hm': "h m = Some nm" and dm: "dnode nm = md"
    by (rule tree_at_node)
  have e6: "RBN_PARENT h2 (Some m) = ret (ctx_ptr C)"
    using e4 hm by (simp add: RBN_PARENT_def rd_def)
  have w2': "tree_at h2 rt2 (plug c (Node l x k d (plug gs mr)))"
    using w2 by (simp add: C_def plug_append)
  from w' have dd: "distinct (addrs (Node Leaf m mk md mr) @ addrs_c C)"
    by (simp add: tree_at_plug)
  have "set (addrs (plug c (Node l x k d (plug gs mr)))) = set (addrs mr) \<union> set (addrs_c C)"
    using addrs_plug [of C mr] by (simp add: C_def plug_append)
  with dd have fresh: "m \<notin> set (addrs (plug c (Node l x k d (plug gs mr))))"
    by auto
  from node_replace_ref [OF w2' ln _ fresh, where nm = nm] hm hm' dm
  obtain h3 h4 h5 h6 rt' where
    n1: "RBN_COPY h2 (Some m) (Some x) = ret h3"
    and n2: "RBN_PARENT h3 (Some x) = ret (ctx_ptr c)"
    and n3: "rb_replace_child h3 rt2 (ctx_ptr c) (Some x) (Some m) = ret (h4, rt')"
    and n4: "RBN_LEFT h4 (Some x) = ret (root_ptr l)"
    and n5: "set_PARENT h4 (root_ptr l) (Some m) = ret h5"
    and n6: "RBN_RIGHT h5 (Some x) = ret (root_ptr (plug gs mr))"
    and n7: "(if root_ptr (plug gs mr) \<noteq> None then set_PARENT h5 (root_ptr (plug gs mr)) (Some m)
              else ret h5) = ret h6"
    and w6: "tree_at h6 rt' (plug c (Node l m k md (plug gs mr)))"
    by auto
  have par: "(if ctx_ptr C = Some x then Some m else ctx_ptr C) = ctx_ptr c'"
  proof (cases "gs = []")
    case True
    then show ?thesis by (simp add: C_def e)
  next
    case False
    have "x \<notin> set (addrs r)" using w by (auto simp: tree_at_plug)
    then have "x \<notin> set (addrs_c gs)"
      using min_path_addrs [of r] by (auto simp: gs_def)
    then have "ctx_ptr gs \<noteq> Some x" using ctx_ptr_in [of gs x] by auto
    with False show ?thesis by (simp add: C_def e ctx_ptr_append)
  qed
  have "rb_remove_two h rt (Some x) = ret (h6, rt', ctx_ptr c', root_ptr mr, mk)"
    by (simp only: rb_remove_two_def e1 e2 e3 e4 e5 s1 s2 e6 Let_def par n1 n2 n3 n4 n5 n6 n7
        obind_ret prod.case)
  moreover have "tree_at h6 rt' (plug c' u)"
    using w6 by (simp add: e plug_append)
  ultimately show ?thesis by (auto simp: e)
qed

lemma rb_remove_stage_ref:
  assumes w: "tree_at h rt (plug c (Node l x k d r))"
    and rp: "rem_pos c (Node l x k d r) = (c', u, k')"
  shows "\<exists>h' rt'.
      (if l \<noteq> Leaf \<and> r \<noteq> Leaf then rb_remove_two h rt (Some x)
       else
         obind (if root_ptr l = None then RBN_RIGHT h (Some x) else RBN_LEFT h (Some x)) (\<lambda>child.
         obind (RBN_PARENT h (Some x)) (\<lambda>par.
         obind (RBN_COLOR h (Some x)) (\<lambda>col.
         obind (if child \<noteq> None then set_PARENT h child par else ret h) (\<lambda>h.
         obind (rb_replace_child h rt par (Some x) child) (\<lambda>(h, rbt).
         ret (h, rbt, par, child, col)))))))
        = ret (h', rt', ctx_ptr c', root_ptr u, k') \<and>
      tree_at h' rt' (plug c' u)"
proof (cases "l \<noteq> Leaf \<and> r \<noteq> Leaf")
  case True
  with rb_remove_two_ref [OF w _ _ rp] show ?thesis by simp
next
  case False
  with rp have e: "c' = c" "k' = k" and u: "l = Leaf \<and> u = r \<or> r = Leaf \<and> u = l"
    by (auto split: if_splits)
  have ch: "(if root_ptr l = None then RBN_RIGHT h (Some x) else RBN_LEFT h (Some x)) = ret (root_ptr u)"
    using u reads_tree(1,2) [OF w] by (auto simp: root_ptr_None)
  have e3: "RBN_PARENT h (Some x) = ret (ctx_ptr c)" and e4: "RBN_COLOR h (Some x) = ret k"
    using reads_tree [OF w] by simp_all
  from splice_ref [OF w u] obtain h1 h2 rt2 where
    s1: "(if root_ptr u \<noteq> None then set_PARENT h (root_ptr u) (ctx_ptr c) else ret h) = ret h1"
    and s2: "rb_replace_child h1 rt (ctx_ptr c) (Some x) (root_ptr u) = ret (h2, rt2)"
    and w2: "tree_at h2 rt2 (plug c u)"
    by auto
  have st: "obind (if root_ptr l = None then RBN_RIGHT h (Some x) else RBN_LEFT h (Some x)) (\<lambda>child.
         obind (RBN_PARENT h (Some x)) (\<lambda>par.
         obind (RBN_COLOR h (Some x)) (\<lambda>col.
         obind (if child \<noteq> None then set_PARENT h child par else ret h) (\<lambda>h.
         obind (rb_replace_child h rt par (Some x) child) (\<lambda>(h, rbt).
         ret (h, rbt, par, child, col)))))) = ret (h2, rt2, ctx_ptr c, root_ptr u, k)"
    by (simp only: ch e3 e4 s1 s2 obind_ret prod.case)
  from False have f: "(l \<noteq> Leaf \<and> r \<noteq> Leaf) = False" by simp
  show ?thesis
    unfolding f if_False e st using w2 by blast
qed

lemma rb_remove_unfold:
  assumes w: "tree_at h rt (plug c (Node l x k d r))"
  shows "rb_remove h rt (Some x) =
     obind (if l \<noteq> Leaf \<and> r \<noteq> Leaf then rb_remove_two h rt (Some x)
       else
         obind (if root_ptr l = None then RBN_RIGHT h (Some x) else RBN_LEFT h (Some x)) (\<lambda>child.
         obind (RBN_PARENT h (Some x)) (\<lambda>par.
         obind (RBN_COLOR h (Some x)) (\<lambda>col.
         obind (if child \<noteq> None then set_PARENT h child par else ret h) (\<lambda>h.
         obind (rb_replace_child h rt par (Some x) child) (\<lambda>(h, rbt).
         ret (h, rbt, par, child, col))))))) (\<lambda>(h, rbt, par, child, col).
     obind (if col = RB_BLACK then rb_remove_color h rbt par child else ret (h, rbt)) (\<lambda>(h, rbt).
     ret (h, rbt, Some x)))"
  unfolding rb_remove_def reads_tree(1,2) [OF w]
  by (simp add: root_ptr_None)

text \<open>\<open>rb_remove\<close> on a node of a valid tree: the tree stays valid, the node is gone from
  the sequence of the tree and nothing else in the sequence has moved, and the cell of the
  node is still allocated.\<close>

lemma rb_remove_ref:
  assumes w: "tree_at h rt (plug c (Node l x k d r))" and i: "rbt_inv (plug c (Node l x k d r))"
  shows "\<exists>h' rt' T. rb_remove h rt (Some x) = ret (h', rt', Some x) \<and> tree_at h' rt' T \<and> rbt_inv T \<and>
           elems T = cbefore c @ elems l @ elems r @ cafter c \<and> h' x \<noteq> None"
proof -
  obtain c' u k' where rp: "rem_pos c (Node l x k d r) = (c', u, k')"
    by (cases "rem_pos c (Node l x k d r)") auto
  from rb_remove_stage_ref [OF w rp] obtain h1 rt1 where
    s1: "(if l \<noteq> Leaf \<and> r \<noteq> Leaf then rb_remove_two h rt (Some x)
       else
         obind (if root_ptr l = None then RBN_RIGHT h (Some x) else RBN_LEFT h (Some x)) (\<lambda>child.
         obind (RBN_PARENT h (Some x)) (\<lambda>par.
         obind (RBN_COLOR h (Some x)) (\<lambda>col.
         obind (if child \<noteq> None then set_PARENT h child par else ret h) (\<lambda>h.
         obind (rb_replace_child h rt par (Some x) child) (\<lambda>(h, rbt).
         ret (h, rbt, par, child, col)))))))
        = ret (h1, rt1, ctx_ptr c', root_ptr u, k')"
    and w1: "tree_at h1 rt1 (plug c' u)"
    by blast
  note iv = rem_pos_inv [OF i rp]
  note el = rem_pos_elems [OF rp]
  have "\<exists>h2 rt2 T. (if k' = RB_BLACK then rb_remove_color h1 rt1 (ctx_ptr c') (root_ptr u)
                     else ret (h1, rt1)) = ret (h2, rt2) \<and>
          tree_at h2 rt2 T \<and> rbt_inv T \<and> elems T = elems (plug c' u)"
  proof (cases "k' = RB_BLACK")
    case True
    with iv have "rem_inv c' u" by simp
    from rb_remove_color_ref [OF this w1] True show ?thesis by simp
  next
    case False
    with iv w1 show ?thesis by auto
  qed
  then obtain h2 rt2 T where
    s2: "(if k' = RB_BLACK then rb_remove_color h1 rt1 (ctx_ptr c') (root_ptr u)
          else ret (h1, rt1)) = ret (h2, rt2)"
    and w2: "tree_at h2 rt2 T" and i2: "rbt_inv T" and e2: "elems T = elems (plug c' u)"
    by blast
  have r: "rb_remove h rt (Some x) = ret (h2, rt2, Some x)"
    by (simp only: rb_remove_unfold [OF w] s1 obind_ret prod.case s2)
  from w obtain n where "h x = Some n" by (rule tree_at_node)
  with rb_remove_dom [OF r] have "h2 x \<noteq> None"
    by (auto simp: keeps_def)
  with r w2 i2 e2 el show ?thesis by auto
qed

section \<open>The invariants after insertion and removal\<close>

lemma addrs_split: "x \<in> set (addrs T) \<Longrightarrow> \<exists>c l k d r. T = plug c (Node l x k d r)"
proof (induction T)
  case Leaf
  then show ?case by simp
next
  case (Node l a k d r)
  consider "x = a" | "x \<in> set (addrs l)" | "x \<in> set (addrs r)"
    using Node.prems by auto
  then show ?case
  proof cases
    case 1
    then have "Node l a k d r = plug [] (Node l x k d r)" by simp
    then show ?thesis by blast
  next
    case 2
    from Node.IH(1) [OF this] obtain c l' k' d' r' where "l = plug c (Node l' x k' d' r')"
      by blast
    then have "Node l a k d r = plug (c @ [LF a k d r]) (Node l' x k' d' r')"
      by (simp add: plug_append)
    then show ?thesis by blast
  next
    case 3
    from Node.IH(2) [OF this] obtain c l' k' d' r' where "r = plug c (Node l' x k' d' r')"
      by blast
    then have "Node l a k d r = plug (c @ [RF l a k d]) (Node l' x k' d' r')"
      by (simp add: plug_append)
    then show ?thesis by blast
  qed
qed

text \<open>
  C2. Let the store hold a tree that satisfies the red-black invariants (the root is
  black, no red node has a red child, every path from the root to an empty position
  passes through the same number of black nodes). Then \<open>rb_insert_node\<close> (which ends with
  \<open>rb_insert_color\<close>), run on a non-empty tree with a node \<open>x\<close> that is allocated and not in
  the tree, and with a comparator that returns on the data nodes it is given, returns,
  and the store then holds a tree with the nodes of the old one and \<open>x\<close> that satisfies the
  invariants; and \<open>rb_remove\<close> (which ends with \<open>rb_remove_color\<close>), run on a node \<open>y\<close> of the
  tree, returns \<open>y\<close>, and the store then holds a tree with the nodes of the old one
  without \<open>y\<close> that satisfies the invariants.
\<close>

theorem rb_invariants_kept:
  assumes w: "tree_at h rt T" and i: "rbt_inv T"
  shows "(T \<noteq> Leaf \<and> h x = Some nn \<and> x \<notin> set (addrs T) \<and> rb_compare srt dn h rt = ret cmpf \<and>
          (\<forall>e \<in> snd ` set (elems T). \<exists>v. cmpf e (dnode nn) = ret v) \<longrightarrow>
          (\<exists>h' rt' T'. rb_insert_node srt dn h rt (Some x) = ret (h', rt') \<and> tree_at h' rt' T' \<and>
             rbt_inv T' \<and> set (addrs T') = insert x (set (addrs T)))) \<and>
         (y \<in> set (addrs T) \<longrightarrow>
          (\<exists>h' rt' T'. rb_remove h rt (Some y) = ret (h', rt', Some y) \<and> tree_at h' rt' T' \<and>
             rbt_inv T' \<and> set (addrs T') = set (addrs T) - {y}))"
proof (intro conjI impI)
  assume a: "T \<noteq> Leaf \<and> h x = Some nn \<and> x \<notin> set (addrs T) \<and> rb_compare srt dn h rt = ret cmpf \<and>
          (\<forall>e \<in> snd ` set (elems T). \<exists>v. cmpf e (dnode nn) = ret v)"
  define cf where "cf = (\<lambda>e d. case cmpf e d of Some (Ret v) \<Rightarrow> v | _ \<Rightarrow> 0)"
  have cm: "cmpf e (dnode nn) = ret (cf e (dnode nn))" if "e \<in> snd ` set (elems T)" for e
  proof -
    from a that obtain v where "cmpf e (dnode nn) = ret v" by blast
    then show ?thesis by (simp add: cf_def ret_def)
  qed
  from a have nl: "T \<noteq> Leaf" and hx: "h x = Some nn" and fr: "x \<notin> set (addrs T)"
    and cmp: "rb_compare srt dn h rt = ret cmpf"
    by simp_all
  have "\<exists>h' rt' T'. rb_insert_node srt dn h rt (Some x) = ret (h', rt') \<and> tree_at h' rt' T' \<and>
           rbt_inv T' \<and>
           elems T' = elems (plug (ins_path cf (dnode nn) [] T) (Node Leaf x RB_RED (dnode nn) Leaf))"
    by (rule rb_insert_node_ref [where cf = cf and cmpf = cmpf, OF w i nl hx fr cmp]) (rule cm)
  then obtain h' rt' T' where
    r: "rb_insert_node srt dn h rt (Some x) = ret (h', rt')" and w': "tree_at h' rt' T'"
    and i': "rbt_inv T'"
    and el: "elems T' = elems (plug (ins_path cf (dnode nn) [] T) (Node Leaf x RB_RED (dnode nn) Leaf))"
    by blast
  have "set (addrs T') = set (addrs (plug (ins_path cf (dnode nn) [] T) (Node Leaf x RB_RED (dnode nn) Leaf)))"
    using el by (simp add: addrs_elems)
  also have "\<dots> = insert x (set (addrs (plug (ins_path cf (dnode nn) [] T) Leaf)))"
    by (simp add: addrs_plug)
  also have "plug (ins_path cf (dnode nn) [] T) Leaf = T"
    by (simp add: plug_ins_path)
  finally show "\<exists>h' rt' T'. rb_insert_node srt dn h rt (Some x) = ret (h', rt') \<and> tree_at h' rt' T' \<and>
             rbt_inv T' \<and> set (addrs T') = insert x (set (addrs T))"
    using r w' i' by blast
next
  assume "y \<in> set (addrs T)"
  then obtain c l k d r where T: "T = plug c (Node l y k d r)"
    using addrs_split by blast
  from rb_remove_ref [OF w [unfolded T] i [unfolded T]] obtain h' rt' T' where
    r: "rb_remove h rt (Some y) = ret (h', rt', Some y)" and w': "tree_at h' rt' T'"
    and i': "rbt_inv T'" and el: "elems T' = cbefore c @ elems l @ elems r @ cafter c"
    by blast
  from w have "distinct (addrs T)" by (simp add: tree_at_def)
  then have dd: "distinct (map fst (cbefore c @ elems l @ (y, d) # elems r @ cafter c))"
    by (simp add: T addrs_elems elems_plug)
  have "set (addrs T') = set (map fst (cbefore c @ elems l @ elems r @ cafter c))"
    using el by (simp add: addrs_elems)
  also have "\<dots> = set (map fst (cbefore c @ elems l @ (y, d) # elems r @ cafter c)) - {y}"
    using dd by auto
  also have "\<dots> = set (addrs T) - {y}"
    by (simp add: T addrs_elems elems_plug)
  finally show "\<exists>h' rt' T'. rb_remove h rt (Some y) = ret (h', rt', Some y) \<and> tree_at h' rt' T' \<and>
             rbt_inv T' \<and> set (addrs T') = set (addrs T) - {y}"
    using r w' i' by blast
qed

text \<open>A tree of three nodes for the leaf-list instances 12, 11 and 13 (values 1, 2, 3), and a
  fourth cell, not in the tree, for the instance 14 (value 4).\<close>

definition h4 :: rb_heap where
  "h4 = [1 \<mapsto> \<lparr>parent = None, left = Some 2, right = Some 3, dnode = Some 11, color = RB_BLACK\<rparr>,
         2 \<mapsto> \<lparr>parent = Some 1, left = None, right = None, dnode = Some 12, color = RB_RED\<rparr>,
         3 \<mapsto> \<lparr>parent = Some 1, left = None, right = None, dnode = Some 13, color = RB_RED\<rparr>,
         4 \<mapsto> \<lparr>parent = None, left = None, right = None, dnode = Some 14, color = RB_BLACK\<rparr>]"

definition dn4 :: "int lyd_heap" where
  "dn4 = [11 \<mapsto> ll_node 2 [], 12 \<mapsto> ll_node 1 [], 13 \<mapsto> ll_node 3 [], 14 \<mapsto> ll_node 4 []]"

theorem rb_invariants_kept_witness:
  "tree_at h4 (Some 1) t3 \<and> rbt_inv t3 \<and>
   (\<exists>h' rt' T'. rb_insert_node int_sort dn4 h4 (Some 1) (Some 4) = ret (h', rt') \<and> tree_at h' rt' T' \<and>
      rbt_inv T' \<and> set (addrs T') = insert 4 (set (addrs t3))) \<and>
   (\<exists>h' rt' T'. rb_remove h4 (Some 1) (Some 1) = ret (h', rt', Some 1) \<and> tree_at h' rt' T' \<and>
      rbt_inv T' \<and> set (addrs T') = set (addrs t3) - {1})"
proof -
  have w: "tree_at h4 (Some 1) t3" by (simp add: tree_at_def h4_def t3_def)
  have i: "rbt_inv t3" by (simp add: rbt_inv_def t3_def)
  have c: "rb_compare int_sort dn4 h4 (Some 1) = ret (rb_compare_leaflists int_sort dn4)"
    by (simp add: rb_compare_def RBN_DNODE_def h4_def dn4_def ll_node_def ll_schema_def)
  have v: "\<forall>e \<in> snd ` set (elems t3). \<exists>v. rb_compare_leaflists int_sort dn4 e (Some 14) = ret v"
    by (simp add: t3_def rb_compare_leaflists_def lyd_value_def dn4_def ll_node_def)
  have n: "h4 4 = Some \<lparr>parent = None, left = None, right = None, dnode = Some 14, color = RB_BLACK\<rparr>"
    by (simp add: h4_def)
  from rb_invariants_kept [OF w i, where x = 4 and srt = int_sort and dn = dn4 and y = 1
      and cmpf = "rb_compare_leaflists int_sort dn4"
      and nn = "\<lparr>parent = None, left = None, right = None, dnode = Some 14, color = RB_BLACK\<rparr>"]
    w i c v n
  show ?thesis by (simp add: t3_def)
qed

section \<open>\<open>rb_prev\<close> and \<open>rb_next\<close>\<close>










section \<open>\<open>rb_find\<close>\<close>







































end
